theory Spec2Isabelle
  imports Main "HOL-Library.Sublist" "HOL-Library.Word"
begin

section \<open>Strings and paths\<close>

text \<open>
  Go strings are byte sequences; they are modelled as \<open>string\<close> (a list of 8-bit
  characters).  The functions of this section are the parts of the Go standard
  library (\<open>strings\<close>, \<open>path\<close>, \<open>path/filepath\<close>) that the resolvers call.
\<close>

text \<open>\<open>strings.Index\<close>: the position of the first occurrence; Go returns \<open>-1\<close> where
  the model returns \<open>None\<close>.\<close>

fun strings_Index :: "string \<Rightarrow> string \<Rightarrow> nat option" where
  "strings_Index [] substr = (if substr = [] then Some 0 else None)"
| "strings_Index (c # s) substr =
     (if prefix substr (c # s) then Some 0
      else map_option Suc (strings_Index s substr))"

text \<open>\<open>strings.LastIndex\<close> for a one-byte separator, as \<open>path.Split\<close> uses it.\<close>

fun lastSlash :: "string \<Rightarrow> nat option" where
  "lastSlash [] = None"
| "lastSlash (c # s) =
     (case lastSlash s of
        Some i \<Rightarrow> Some (Suc i)
      | None \<Rightarrow> if c = CHR ''/'' then Some 0 else None)"

lemma strings_Index_bound:
  "strings_Index s substr = Some i \<Longrightarrow> i + length substr \<le> length s"
proof (induction s arbitrary: i)
  case Nil
  then show ?case by (simp split: if_splits)
next
  case (Cons c s)
  show ?case
  proof (cases "prefix substr (c # s)")
    case True
    with Cons.prems show ?thesis by (auto dest: prefix_length_le)
  next
    case False
    with Cons.prems obtain j where "strings_Index s substr = Some j" "i = Suc j"
      by auto
    with Cons.IH show ?thesis by fastforce
  qed
qed

text \<open>\<open>strings.Count\<close>: the number of non-overlapping occurrences.  For an empty
  \<open>substr\<close> Go counts the UTF-8 sequences of \<open>s\<close> plus one; the model counts bytes
  there, which is the same on ASCII text (no caller passes an empty \<open>substr\<close>).\<close>

function strings_Count :: "string \<Rightarrow> string \<Rightarrow> nat" where
  "strings_Count s substr =
     (if substr = [] then length s + 1
      else case strings_Index s substr of
             None \<Rightarrow> 0
           | Some i \<Rightarrow> Suc (strings_Count (drop (i + length substr) s) substr))"
  by pat_completeness auto
termination
proof (relation "measure (\<lambda>(s, substr). length s)")
  show "wf (measure (\<lambda>(s, substr). length s))" by simp
next
  fix s substr :: string and i
  assume ne: "substr \<noteq> []" and ix: "strings_Index s substr = Some i"
  have "i + length substr \<le> length s" by (rule strings_Index_bound [OF ix])
  moreover from ne have "0 < length substr" by simp
  ultimately have "length s - (i + length substr) < length s" by linarith
  then show "((drop (i + length substr) s, substr), (s, substr))
       \<in> measure (\<lambda>(s, substr). length s)"
    by simp
qed

declare strings_Count.simps [simp del]

text \<open>The replacement loop of \<open>strings.Replace\<close>, run for \<open>n\<close> replacements.  The flag
  is Go's \<open>i > 0\<close>: with an empty \<open>old\<close> every replacement after the first steps over
  one character first.\<close>

fun replace_loop :: "nat \<Rightarrow> bool \<Rightarrow> string \<Rightarrow> string \<Rightarrow> string \<Rightarrow> string" where
  "replace_loop 0 later s old new = s"
| "replace_loop (Suc n) later s old new =
     (if old = [] then
        (if later then take 1 s @ new @ replace_loop n True (drop 1 s) old new
         else new @ replace_loop n True s old new)
      else case strings_Index s old of
             None \<Rightarrow> s
           | Some j \<Rightarrow>
               take j s @ new @ replace_loop n True (drop (j + length old) s) old new)"

text \<open>\<open>strings.Replace(s, old, new, n)\<close>; a negative \<open>n\<close> means no limit.\<close>

definition strings_Replace :: "string \<Rightarrow> string \<Rightarrow> string \<Rightarrow> int \<Rightarrow> string" where
  "strings_Replace s old new n =
     (if old = new \<or> n = 0 then s
      else let m = strings_Count s old in
        if m = 0 then s
        else replace_loop (if n < 0 \<or> int m < n then m else nat n) False s old new)"

definition strings_ReplaceAll :: "string \<Rightarrow> string \<Rightarrow> string \<Rightarrow> string" where
  "strings_ReplaceAll s old new = strings_Replace s old new (- 1)"

text \<open>\<open>path.Clean\<close>.  \<open>out\<close> is the output buffer written so far and \<open>dotdot\<close> the
  length of the prefix of it that a \<open>..\<close> element must not remove.\<close>

function backtrack :: "string \<Rightarrow> nat \<Rightarrow> nat \<Rightarrow> nat" where
  "backtrack out dotdot w =
     (if w > dotdot \<and> out ! w \<noteq> CHR ''/'' then backtrack out dotdot (w - 1) else w)"
  by pat_completeness auto
termination
  by (relation "measure (\<lambda>(out, dotdot, w). w)") auto

declare backtrack.simps [simp del]

function clean_loop :: "bool \<Rightarrow> string \<Rightarrow> string \<Rightarrow> nat \<Rightarrow> string" where
  "clean_loop rooted [] out dotdot = out"
| "clean_loop rooted (c # p) out dotdot =
     (if c = CHR ''/'' then
        \<comment> \<open>empty path element\<close>
        clean_loop rooted p out dotdot
      else if c = CHR ''.'' \<and> (p = [] \<or> hd p = CHR ''/'') then
        \<comment> \<open>\<open>.\<close> element\<close>
        clean_loop rooted p out dotdot
      else if c = CHR ''.'' \<and> hd p = CHR ''.'' \<and> (tl p = [] \<or> hd (tl p) = CHR ''/'') then
        \<comment> \<open>\<open>..\<close> element: remove to last \<open>/\<close>\<close>
        (if length out > dotdot then
           clean_loop rooted (tl p) (take (backtrack out dotdot (length out - 1)) out) dotdot
         else if \<not> rooted then
           (let out' = (if length out > 0 then out @ ''/'' else out) @ ''..''
            in clean_loop rooted (tl p) out' (length out'))
         else clean_loop rooted (tl p) out dotdot)
      else
        \<comment> \<open>real path element: add slash if needed, copy element\<close>
        (let out' = (if rooted \<and> length out \<noteq> 1 \<or> \<not> rooted \<and> length out \<noteq> 0
                     then out @ ''/'' else out)
         in clean_loop rooted (dropWhile (\<lambda>x. x \<noteq> CHR ''/'') (c # p))
              (out' @ takeWhile (\<lambda>x. x \<noteq> CHR ''/'') (c # p)) dotdot))"
  by pat_completeness auto
termination
  by (relation "measure (\<lambda>(rooted, p, out, dotdot). length p)")
     (auto simp: less_Suc_eq_le length_dropWhile_le)

declare clean_loop.simps [simp del]

definition path_Clean :: "string \<Rightarrow> string" where
  "path_Clean path =
     (if path = [] then ''.''
      else let rooted = (hd path = CHR ''/'');
               out = (if rooted then clean_loop True (tl path) ''/'' 1
                      else clean_loop False path [] 0)
           in if out = [] then ''.'' else out)"

text \<open>\<open>path.Split\<close>, \<open>path.Dir\<close> and \<open>path.Join\<close>.\<close>

definition path_Split :: "string \<Rightarrow> string \<times> string" where
  "path_Split path =
     (case lastSlash path of
        None \<Rightarrow> ([], path)
      | Some i \<Rightarrow> (take (i + 1) path, drop (i + 1) path))"

definition path_Dir :: "string \<Rightarrow> string" where
  "path_Dir path = path_Clean (fst (path_Split path))"

fun join_buf :: "string \<Rightarrow> string list \<Rightarrow> string" where
  "join_buf buf [] = buf"
| "join_buf buf (e # elem) =
     (if length buf > 0 \<or> e \<noteq> [] then
        join_buf ((if length buf > 0 then buf @ ''/'' else buf) @ e) elem
      else join_buf buf elem)"

definition path_Join :: "string list \<Rightarrow> string" where
  "path_Join elem =
     (if length (concat elem) = 0 then [] else path_Clean (join_buf [] elem))"

text \<open>\<open>filepath.Base\<close> on a system whose separator is \<open>/\<close> and that has no volume
  names.\<close>

fun strip_trailing_slashes :: "string \<Rightarrow> string" where
  "strip_trailing_slashes path =
     rev (dropWhile (\<lambda>x. x = CHR ''/'') (rev path))"

definition filepath_Base :: "string \<Rightarrow> string" where
  "filepath_Base path =
     (if path = [] then ''.''
      else let path1 = strip_trailing_slashes path;
               path2 = (case lastSlash path1 of None \<Rightarrow> path1 | Some i \<Rightarrow> drop (i + 1) path1)
           in if path2 = [] then ''/'' else path2)"

section \<open>Path normalization and alias keys\<close>

text \<open>\<open>absolutePath\<close> and \<open>getAliasForImport\<close> of \<open>contracts.go\<close>.\<close>

definition absolutePath :: "string \<Rightarrow> string \<Rightarrow> string" where
  "absolutePath basePath relativePath = path_Join [path_Dir basePath, relativePath]"

definition getAliasForImport :: "string \<Rightarrow> string" where
  "getAliasForImport location = strings_ReplaceAll (filepath_Base location) ''.cdc'' ''''"

section \<open>Addresses and import locations\<close>

text \<open>
  \<open>flow.Address\<close> is an array of eight bytes; the model is a list of bytes, and
  every address the functions below build has length eight.  \<open>Address.String\<close> is the
  hexadecimal encoding of the bytes (\<open>hex.EncodeToString\<close>), sixteen digits.
\<close>

type_synonym Address = "8 word list"

definition hexdigit :: "nat \<Rightarrow> char" where
  "hexdigit n = ''0123456789abcdef'' ! (n mod 16)"

definition hex_EncodeToString :: "8 word list \<Rightarrow> string" where
  "hex_EncodeToString bs =
     concat (map (\<lambda>b. [hexdigit (unat b div 16), hexdigit (unat b mod 16)]) bs)"

definition Address_String :: "Address \<Rightarrow> string" where
  "Address_String a = hex_EncodeToString a"

definition fromHexChar :: "char \<Rightarrow> nat option" where
  "fromHexChar c =
     (let n = of_char c :: nat in
      if 48 \<le> n \<and> n \<le> 57 then Some (n - 48)
      else if 97 \<le> n \<and> n \<le> 102 then Some (n - 97 + 10)
      else if 65 \<le> n \<and> n \<le> 70 then Some (n - 65 + 10)
      else None)"

text \<open>\<open>hex.DecodeString\<close>, keeping what the caller keeps: the bytes decoded before the
  first malformed digit (\<open>HexToAddress\<close> drops the error).\<close>

fun hex_DecodeString :: "string \<Rightarrow> 8 word list" where
  "hex_DecodeString (a # b # s) =
     (case fromHexChar a of
        None \<Rightarrow> []
      | Some x \<Rightarrow>
          (case fromHexChar b of
             None \<Rightarrow> []
           | Some y \<Rightarrow> word_of_nat (16 * x + y) # hex_DecodeString s))"
| "hex_DecodeString s = []"

definition BytesToAddress :: "8 word list \<Rightarrow> Address" where
  "BytesToAddress b =
     (let b' = (if length b > 8 then drop (length b - 8) b else b)
      in replicate (8 - length b') 0 @ b')"

definition strings_TrimPrefix :: "string \<Rightarrow> string \<Rightarrow> string" where
  "strings_TrimPrefix s pre = (if prefix pre s then drop (length pre) s else s)"

definition HexToAddress :: "string \<Rightarrow> Address" where
  "HexToAddress h =
     (let trimmed = strings_TrimPrefix h ''0x'';
          trimmed' = (if length trimmed mod 2 = 1 then ''0'' @ trimmed else trimmed)
      in BytesToAddress (hex_DecodeString trimmed'))"

text \<open>
  The parser is outside the resolvers: a parsed program is represented by what they
  read of it, the locations of its import declarations in declaration order.  A
  location is a tagged value; the parser gives an import declaration one of three
  kinds: a string (path) location for a string literal, an address location (an
  address and a contract name) for an address literal, and an identifier location
  for a bare identifier (\<open>import Crypto\<close>).
\<close>

datatype Location =
    StringLocation string
  | AddressLocation Address string
  | IdentifierLocation string

type_synonym Program = "Location list"

text \<open>\<open>String()\<close> of the location kinds.\<close>

definition StringLocation_String :: "string \<Rightarrow> string" where
  "StringLocation_String l = l"

definition IdentifierLocation_String :: "string \<Rightarrow> string" where
  "IdentifierLocation_String l = l"

definition AddressLocation_String :: "Address \<times> string \<Rightarrow> string" where
  "AddressLocation_String l =
     (if snd l = [] then Address_String (fst l)
      else Address_String (fst l) @ ''.'' @ snd l)"

text \<open>
  Go's two-result type assertion \<open>v, ok := x.(T)\<close>: when \<open>x\<close> does not hold a \<open>T\<close>,
  \<open>ok\<close> is false and \<open>v\<close> is the zero value of \<open>T\<close>.
\<close>

definition zero_Address :: Address where
  "zero_Address = replicate 8 0"

fun assert_StringLocation :: "Location \<Rightarrow> string \<times> bool" where
  "assert_StringLocation (StringLocation s) = (s, True)"
| "assert_StringLocation (AddressLocation a n) = ([], False)"
| "assert_StringLocation (IdentifierLocation i) = ([], False)"

fun assert_AddressLocation :: "Location \<Rightarrow> (Address \<times> string) \<times> bool" where
  "assert_AddressLocation (AddressLocation a n) = ((a, n), True)"
| "assert_AddressLocation (StringLocation s) = ((zero_Address, []), False)"
| "assert_AddressLocation (IdentifierLocation i) = ((zero_Address, []), False)"

section \<open>Location extraction\<close>

text \<open>\<open>Contract.imports\<close> (deployment mode) reads the field \<open>program\<close> only; it is
  modelled on the program (\<open>imports\<close> is a keyword of Isabelle, hence the name).\<close>

fun Contract_imports :: "Program \<Rightarrow> string list" where
  "Contract_imports [] = []"
| "Contract_imports (imp # decls) =
     (let (location, ok) = assert_StringLocation imp
      in if ok then StringLocation_String location # Contract_imports decls
         else Contract_imports decls)"

text \<open>\<open>Resolver.getFileImports\<close> (ad-hoc mode).\<close>

fun getFileImports :: "Program \<Rightarrow> string list" where
  "getFileImports [] = []"
| "getFileImports (importDeclaration # decls) =
     (let (location, ok) = assert_AddressLocation importDeclaration
      in if \<not> ok then AddressLocation_String location # getFileImports decls
         else getFileImports decls)"

text \<open>The location strings of the import declarations that are not address
  locations, in declaration order: what the specification asks of both
  extractions.\<close>

fun is_AddressLocation :: "Location \<Rightarrow> bool" where
  "is_AddressLocation (AddressLocation a n) = True"
| "is_AddressLocation (StringLocation s) = False"
| "is_AddressLocation (IdentifierLocation i) = False"

fun Location_String :: "Location \<Rightarrow> string" where
  "Location_String (StringLocation s) = StringLocation_String s"
| "Location_String (AddressLocation a n) = AddressLocation_String (a, n)"
| "Location_String (IdentifierLocation i) = IdentifierLocation_String i"

definition file_locations :: "Program \<Rightarrow> string list" where
  "file_locations prog = map Location_String (filter (\<lambda>l. \<not> is_AddressLocation l) prog)"

section \<open>Contracts\<close>

text \<open>
  Errors are values: the two registration failures, the messages built with
  \<open>fmt.Errorf\<close>, the \<open>Unorderable\<close> error of the topological sort (its cyclic
  components) and a run-time panic with its message.
\<close>

datatype error =
    ReadFileError string
  | ParseError string
  | Errorf string
  | Unorderable "int list list"
  | Panic string

text \<open>
  A \<open>*Contract\<close> is a reference: a position in the list of the contract objects
  allocated so far.  The maps \<open>dependencies\<close> and \<open>aliases\<close> are Go maps.
\<close>

type_synonym ref = nat

record Contract =
  index :: int
  name :: string
  source :: string
  target :: Address
  code :: string
  program :: Program
  dependencies :: "string \<rightharpoonup> ref"
  aliases :: "string \<rightharpoonup> Address"

text \<open>What registration reads from outside: the file system (\<open>ioutil.ReadFile\<close>) and
  the parser (\<open>parser2.ParseProgram\<close>); \<open>None\<close> is a failure.\<close>

record World =
  ReadFile :: "string \<rightharpoonup> string"
  ParseProgram :: "string \<rightharpoonup> Program"

definition newContract :: "World \<Rightarrow> int \<Rightarrow> string \<Rightarrow> string \<Rightarrow> Address \<Rightarrow> error + Contract" where
  "newContract w idx contractName contractSource tgt =
     (case ReadFile w contractSource of
        None \<Rightarrow> Inl (ReadFileError contractSource)
      | Some cd \<Rightarrow>
          (case ParseProgram w cd of
             None \<Rightarrow> Inl (ParseError cd)
           | Some prog \<Rightarrow>
               Inr \<lparr>index = idx, name = contractName, source = contractSource,
                    target = tgt, code = cd, program = prog,
                    dependencies = Map.empty, aliases = Map.empty\<rparr>))"

text \<open>
  Go iterates a map in an order that the run time chooses anew for every \<open>range\<close>
  statement.  Every loop over a map therefore takes the order of the keys as an
  argument; \<open>range_order ks m\<close> says that \<open>ks\<close> is such an order for the map \<open>m\<close>.
\<close>

definition range_order :: "'k list \<Rightarrow> ('k \<rightharpoonup> 'v) \<Rightarrow> bool" where
  "range_order ks m \<longleftrightarrow> distinct ks \<and> set ks = dom m"

text \<open>The quoted literal \<open>fmt.Sprintf(`"%s"`, location)\<close>.\<close>

definition quoted :: "string \<Rightarrow> string" where
  "quoted location = [CHR 0x22] @ location @ [CHR 0x22]"

text \<open>\<open>Contract.TranspiledCode\<close>: one loop over \<open>c.dependencies\<close>, one over
  \<open>c.aliases\<close>.  \<open>objs\<close> is the list of contract objects the references point
  into.\<close>

fun transpile_dependencies ::
  "Contract list \<Rightarrow> (string \<rightharpoonup> ref) \<Rightarrow> string list \<Rightarrow> string \<Rightarrow> string" where
  "transpile_dependencies objs deps [] cd = cd"
| "transpile_dependencies objs deps (location # locations) cd =
     (case deps location of
        None \<Rightarrow> transpile_dependencies objs deps locations cd
      | Some dep \<Rightarrow>
          transpile_dependencies objs deps locations
            (strings_Replace cd (quoted location)
               (''0x'' @ Address_String (target (objs ! dep))) 1))"

fun transpile_aliases :: "(string \<rightharpoonup> Address) \<Rightarrow> string list \<Rightarrow> string \<Rightarrow> string" where
  "transpile_aliases als [] cd = cd"
| "transpile_aliases als (location # locations) cd =
     (case als location of
        None \<Rightarrow> transpile_aliases als locations cd
      | Some tgt \<Rightarrow>
          transpile_aliases als locations
            (strings_Replace cd (quoted location) (''0x'' @ Address_String tgt) 1))"

definition TranspiledCode ::
  "Contract list \<Rightarrow> string list \<Rightarrow> string list \<Rightarrow> Contract \<Rightarrow> string" where
  "TranspiledCode objs deps_order aliases_order c =
     transpile_aliases (aliases c) aliases_order
       (transpile_dependencies objs (dependencies c) deps_order (code c))"

section \<open>The preprocessor (deployment mode)\<close>

text \<open>The fields of \<open>Preprocessor\<close>, and the contract objects it has allocated.\<close>

record Preprocessor =
  p_aliases :: "string \<rightharpoonup> string"
  contracts :: "string \<rightharpoonup> ref"
  objs :: "Contract list"

definition NewPreprocessor :: "(string \<rightharpoonup> string) \<Rightarrow> Preprocessor" where
  "NewPreprocessor als = \<lparr>p_aliases = als, contracts = Map.empty, objs = []\<rparr>"

text \<open>\<open>AddContractSource\<close>; \<open>len(p.contracts)\<close> is the number of keys of the map.  On an
  error the preprocessor is unchanged.\<close>

definition AddContractSource ::
  "World \<Rightarrow> Preprocessor \<Rightarrow> string \<Rightarrow> string \<Rightarrow> Address \<Rightarrow> error + Preprocessor" where
  "AddContractSource w p contractName contractSource tgt =
     (case newContract w (int (card (dom (contracts p)))) contractName contractSource tgt of
        Inl err \<Rightarrow> Inl err
      | Inr c \<Rightarrow>
          Inr (p\<lparr>objs := objs p @ [c],
                 contracts := (contracts p)(source c \<mapsto> length (objs p))\<rparr>))"

definition ID :: "Preprocessor \<Rightarrow> ref \<Rightarrow> int" where
  "ID p c = index (objs p ! c)"

definition addDependency :: "Preprocessor \<Rightarrow> ref \<Rightarrow> string \<Rightarrow> ref \<Rightarrow> Preprocessor" where
  "addDependency p c location dep =
     p\<lparr>objs := (objs p)[c := (objs p ! c)
            \<lparr>dependencies := (dependencies (objs p ! c))(location \<mapsto> dep)\<rparr>]\<rparr>"

definition addAlias :: "Preprocessor \<Rightarrow> ref \<Rightarrow> string \<Rightarrow> Address \<Rightarrow> Preprocessor" where
  "addAlias p c location tgt =
     p\<lparr>objs := (objs p)[c := (objs p ! c)
            \<lparr>aliases := (aliases (objs p ! c))(location \<mapsto> tgt)\<rparr>]\<rparr>"

definition unresolved_message :: "string \<Rightarrow> string \<Rightarrow> string" where
  "unresolved_message nm importPath =
     ''Import from '' @ nm @ '' could not be find: '' @ importPath
       @ '', make sure import path is correct.''"

text \<open>The first loop of \<open>PrepareForDeployment\<close>: the inner loop over the imports of
  one contract, and the outer loop over \<open>p.contracts\<close> in the order \<open>ks\<close>.  Both
  return the error, if any, and the preprocessor as the loop left it.\<close>

fun resolve_imports :: "Preprocessor \<Rightarrow> ref \<Rightarrow> string list \<Rightarrow> error option \<times> Preprocessor" where
  "resolve_imports p c [] = (None, p)"
| "resolve_imports p c (location # locations) =
     (let importPath = absolutePath (source (objs p ! c)) location;
          importPathAlias = getAliasForImport location
      in case contracts p importPath of
           Some importContract \<Rightarrow>
             resolve_imports (addDependency p c location importContract) c locations
         | None \<Rightarrow>
             (case p_aliases p importPathAlias of
                Some importAlias \<Rightarrow>
                  resolve_imports (addAlias p c location (HexToAddress importAlias)) c locations
              | None \<Rightarrow>
                  (Some (Errorf (unresolved_message (name (objs p ! c)) importPath)), p)))"

fun resolve_contracts :: "Preprocessor \<Rightarrow> string list \<Rightarrow> error option \<times> Preprocessor" where
  "resolve_contracts p [] = (None, p)"
| "resolve_contracts p (k # ks) =
     (case contracts p k of
        None \<Rightarrow> resolve_contracts p ks
      | Some c \<Rightarrow>
          (case resolve_imports p c (Contract_imports (program (objs p ! c))) of
             (Some err, p') \<Rightarrow> (Some err, p')
           | (None, p') \<Rightarrow> resolve_contracts p' ks))"

section \<open>The dependency graph and its topological sort\<close>

text \<open>
  The part of gonum's \<open>simple.DirectedGraph\<close> that the sort reads: the nodes by
  their ID and the successor IDs of every node.  \<open>AddNode\<close> panics on an ID that
  is taken, with the ID in the message (\<open>format_d\<close> is the verb \<open>%d\<close> of
  \<open>fmt.Sprintf\<close>), \<open>SetEdge\<close> on an edge from a node to itself.
\<close>

record DirectedGraph =
  g_nodes :: "int \<rightharpoonup> ref"
  g_from :: "int \<Rightarrow> int set"

definition NewDirectedGraph :: DirectedGraph where
  "NewDirectedGraph = \<lparr>g_nodes = Map.empty, g_from = (\<lambda>v. {})\<rparr>"

fun decimal :: "nat \<Rightarrow> string" where
  "decimal n =
     (if n < 10 then [char_of (48 + n)]
      else decimal (n div 10) @ [char_of (48 + n mod 10)])"

definition format_d :: "int \<Rightarrow> string" where
  "format_d i = (if i < 0 then ''-'' @ decimal (nat (- i)) else decimal (nat i))"

definition AddNode :: "DirectedGraph \<Rightarrow> int \<Rightarrow> ref \<Rightarrow> error + DirectedGraph" where
  "AddNode g nid n =
     (if g_nodes g nid \<noteq> None
      then Inl (Panic (''simple: node ID collision: '' @ format_d nid))
      else Inr (g\<lparr>g_nodes := (g_nodes g)(nid \<mapsto> n)\<rparr>))"

definition SetEdge :: "DirectedGraph \<Rightarrow> int \<Rightarrow> ref \<Rightarrow> int \<Rightarrow> ref \<Rightarrow> error + DirectedGraph" where
  "SetEdge g fid fr tid to =
     (if fid = tid then Inl (Panic ''simple: adding self edge'')
      else Inr (g\<lparr>g_nodes := (g_nodes g)(fid \<mapsto> fr, tid \<mapsto> to),
                  g_from := (g_from g)(fid := insert tid (g_from g fid))\<rparr>))"

text \<open>
  \<open>topo.TarjanSCC\<close>.  The tables \<open>indexTable\<close> and \<open>lowLink\<close> are Go maps read with the
  default \<open>0\<close>.  The stack is kept with its top first.  \<open>succ v\<close> is the list of
  successors of \<open>v\<close> in the order in which the graph hands them out.
\<close>

record tarjan =
  t_index :: nat
  indexTable :: "int \<Rightarrow> nat"
  lowLink :: "int \<Rightarrow> nat"
  onStack :: "int set"
  stack :: "int list"
  sccs :: "int list list"

text \<open>The loop that pops the stack down to \<open>v\<close>; on an empty stack Go's slice
  index panics (\<open>None\<close>).\<close>

fun pop_loop :: "int \<Rightarrow> int list \<Rightarrow> int set \<Rightarrow> int list \<Rightarrow> (int list \<times> int set \<times> int list) option" where
  "pop_loop v [] on scc = None"
| "pop_loop v (w # st) on scc =
     (if w = v then Some (st, on - {w}, scc @ [w])
      else pop_loop v st (on - {w}) (scc @ [w]))"

text \<open>The first statements of \<open>strongconnect\<close>: \<open>v\<close> gets the next index, which is its
  low link too, and is pushed.\<close>

definition visit :: "int \<Rightarrow> tarjan \<Rightarrow> tarjan" where
  "visit v t =
     (let i = t_index t + 1
      in t\<lparr>t_index := i, indexTable := (indexTable t)(v := i),
            lowLink := (lowLink t)(v := i), onStack := insert v (onStack t),
            stack := v # stack t\<rparr>)"

definition set_lowLink :: "int \<Rightarrow> nat \<Rightarrow> tarjan \<Rightarrow> tarjan" where
  "set_lowLink v l t = t\<lparr>lowLink := (lowLink t)(v := l)\<rparr>"

text \<open>The last statements of \<open>strongconnect\<close> for a root \<open>v\<close>: the stack is popped down
  to \<open>v\<close> and the popped nodes are a new component.\<close>

definition pop_scc :: "int \<Rightarrow> tarjan \<Rightarrow> tarjan option" where
  "pop_scc v t =
     (case pop_loop v (stack t) (onStack t) [] of
        None \<Rightarrow> None
      | Some (st, on, scc) \<Rightarrow> Some (t\<lparr>onStack := on, stack := st, sccs := sccs t @ [scc]\<rparr>))"

text \<open>\<open>strongconnect\<close> and its loop over the successors.  The recursion is bounded
  by a depth \<open>n\<close>; \<open>None\<close> is a run that did not return within it.\<close>

fun strongconnect :: "nat \<Rightarrow> (int \<Rightarrow> int list) \<Rightarrow> int \<Rightarrow> tarjan \<Rightarrow> tarjan option"
  and successors :: "nat \<Rightarrow> (int \<Rightarrow> int list) \<Rightarrow> int \<Rightarrow> int list \<Rightarrow> tarjan \<Rightarrow> tarjan option"
where
  "strongconnect 0 succ v t = None"
| "strongconnect (Suc n) succ v t =
     (case successors n succ v (succ v) (visit v t) of
        None \<Rightarrow> None
      | Some t3 \<Rightarrow>
          if lowLink t3 v = indexTable t3 v then pop_scc v t3 else Some t3)"
| "successors n succ v [] t = Some t"
| "successors n succ v (w # ws) t =
     (if indexTable t w = 0 then
        (case strongconnect n succ w t of
           None \<Rightarrow> None
         | Some t' \<Rightarrow>
             successors n succ v ws (set_lowLink v (min (lowLink t' v) (lowLink t' w)) t'))
      else if w \<in> onStack t then
        successors n succ v ws (set_lowLink v (min (lowLink t v) (indexTable t w)) t)
      else successors n succ v ws t)"

definition tarjan_init :: tarjan where
  "tarjan_init = \<lparr>t_index = 0, indexTable = (\<lambda>v. 0), lowLink = (\<lambda>v. 0), onStack = {},
                   stack = [], sccs = []\<rparr>"

fun tarjan_nodes :: "nat \<Rightarrow> (int \<Rightarrow> int list) \<Rightarrow> int list \<Rightarrow> tarjan \<Rightarrow> tarjan option" where
  "tarjan_nodes n succ [] t = Some t"
| "tarjan_nodes n succ (v # vs) t =
     (if indexTable t v = 0 then
        (case strongconnect n succ v t of
           None \<Rightarrow> None
         | Some t' \<Rightarrow> tarjan_nodes n succ vs t')
      else tarjan_nodes n succ vs t)"

text \<open>\<open>nodes\<close> is the order in which the graph hands out its nodes.  No node is
  visited twice, so the depth never exceeds their number.\<close>

definition TarjanSCC :: "int list \<Rightarrow> (int \<Rightarrow> int list) \<Rightarrow> int list list option" where
  "TarjanSCC nodes succ =
     map_option sccs (tarjan_nodes (length nodes) succ nodes tarjan_init)"

text \<open>\<open>topo.Sort\<close>: the components in reverse, \<open>None\<close> (Go's \<open>nil\<close>) at the place of a
  component that is not a single node, and the error \<open>Unorderable\<close> when there is
  one.\<close>

definition sortedFrom :: "int list list \<Rightarrow> int option list \<times> error option" where
  "sortedFrom cs =
     (let ss = map (\<lambda>s. if length s \<noteq> 1 then None else Some (hd s)) cs;
          sc = map sort (filter (\<lambda>s. length s \<noteq> 1) cs)
      in (rev ss, if sc = [] then None else Some (Unorderable (rev sc))))"

text \<open>\<open>g.Nodes()\<close> and \<open>g.From(id)\<close> iterate over maps of the graph: the nodes and the
  successors that the graph holds, in the order given.\<close>

definition graph_Nodes :: "DirectedGraph \<Rightarrow> int list \<Rightarrow> int list" where
  "graph_Nodes g order = filter (\<lambda>v. g_nodes g v \<noteq> None) order"

definition graph_From :: "DirectedGraph \<Rightarrow> (int \<Rightarrow> int list) \<Rightarrow> int \<Rightarrow> int list" where
  "graph_From g order v = filter (\<lambda>w. w \<in> g_from g v) (order v)"

definition topo_Sort ::
  "DirectedGraph \<Rightarrow> int list \<Rightarrow> (int \<Rightarrow> int list) \<Rightarrow> (int option list \<times> error option) option" where
  "topo_Sort g nodes_order from_order =
     map_option sortedFrom (TarjanSCC (graph_Nodes g nodes_order) (graph_From g from_order))"

text \<open>The key orders of one call of \<open>PrepareForDeployment\<close>: of the three loops over
  \<open>p.contracts\<close>, of the loop over the dependencies of each contract (by its key),
  and of the nodes and the successors inside the sort.\<close>

record iteration =
  resolve_keys :: "string list"
  node_keys :: "string list"
  edge_keys :: "string list"
  edge_deps :: "string \<Rightarrow> string list"
  topo_nodes :: "int list"
  topo_from :: "int \<Rightarrow> int list"

text \<open>\<open>sortByDeploymentOrder\<close>: the loop that adds the nodes, the two nested loops that
  set the edges, the sort, and the conversion of the sorted nodes.\<close>

fun add_nodes :: "Preprocessor \<Rightarrow> string list \<Rightarrow> DirectedGraph \<Rightarrow> error + DirectedGraph" where
  "add_nodes p [] g = Inr g"
| "add_nodes p (k # ks) g =
     (case contracts p k of
        None \<Rightarrow> add_nodes p ks g
      | Some c \<Rightarrow>
          (case AddNode g (ID p c) c of
             Inl err \<Rightarrow> Inl err
           | Inr g' \<Rightarrow> add_nodes p ks g'))"

fun set_edges_of :: "Preprocessor \<Rightarrow> ref \<Rightarrow> string list \<Rightarrow> DirectedGraph \<Rightarrow> error + DirectedGraph" where
  "set_edges_of p c [] g = Inr g"
| "set_edges_of p c (location # locations) g =
     (case dependencies (objs p ! c) location of
        None \<Rightarrow> set_edges_of p c locations g
      | Some dep \<Rightarrow>
          (case SetEdge g (ID p dep) dep (ID p c) c of
             Inl err \<Rightarrow> Inl err
           | Inr g' \<Rightarrow> set_edges_of p c locations g'))"

fun set_edges ::
  "Preprocessor \<Rightarrow> (string \<Rightarrow> string list) \<Rightarrow> string list \<Rightarrow> DirectedGraph \<Rightarrow> error + DirectedGraph" where
  "set_edges p deps_order [] g = Inr g"
| "set_edges p deps_order (k # ks) g =
     (case contracts p k of
        None \<Rightarrow> set_edges p deps_order ks g
      | Some c \<Rightarrow>
          (case set_edges_of p c (deps_order k) g of
             Inl err \<Rightarrow> Inl err
           | Inr g' \<Rightarrow> set_edges p deps_order ks g'))"

definition build_graph :: "iteration \<Rightarrow> Preprocessor \<Rightarrow> error + DirectedGraph" where
  "build_graph it p =
     (case add_nodes p (node_keys it) NewDirectedGraph of
        Inl err \<Rightarrow> Inl err
      | Inr g \<Rightarrow> set_edges p (edge_deps it) (edge_keys it) g)"

fun results_of :: "DirectedGraph \<Rightarrow> int option list \<Rightarrow> error + ref list" where
  "results_of g [] = Inr []"
| "results_of g (s # ss) =
     (case s of
        None \<Rightarrow> Inl (Panic ''interface conversion: interface is nil'')
      | Some v \<Rightarrow>
          (case g_nodes g v of
             None \<Rightarrow> Inl (Panic ''interface conversion: interface is nil'')
           | Some c \<Rightarrow>
               (case results_of g ss of
                  Inl err \<Rightarrow> Inl err
                | Inr cs \<Rightarrow> Inr (c # cs))))"

definition sortByDeploymentOrder :: "iteration \<Rightarrow> Preprocessor \<Rightarrow> (error + ref list) option" where
  "sortByDeploymentOrder it p =
     (case build_graph it p of
        Inl err \<Rightarrow> Some (Inl err)
      | Inr g \<Rightarrow>
          (case topo_Sort g (topo_nodes it) (topo_from it) of
             None \<Rightarrow> None
           | Some (ss, Some err) \<Rightarrow> Some (Inl err)
           | Some (ss, None) \<Rightarrow> Some (results_of g ss)))"

text \<open>\<open>PrepareForDeployment\<close>: the result, and the preprocessor as the call left
  it.\<close>

definition PrepareForDeployment ::
  "iteration \<Rightarrow> Preprocessor \<Rightarrow> ((error + ref list) \<times> Preprocessor) option" where
  "PrepareForDeployment it p =
     (case resolve_contracts p (resolve_keys it) of
        (Some err, p') \<Rightarrow> Some (Inl err, p')
      | (None, p') \<Rightarrow>
          (case sortByDeploymentOrder it p' of
             None \<Rightarrow> None
           | Some r \<Rightarrow> Some (r, p')))"

section \<open>The resolver (ad-hoc mode)\<close>

record Resolver =
  r_code :: string
  r_program :: Program

definition NewResolver :: "World \<Rightarrow> string \<Rightarrow> error + Resolver" where
  "NewResolver w cd =
     (case ParseProgram w cd of
        None \<Rightarrow> Inl (ParseError cd)
      | Some prog \<Rightarrow> Inr \<lparr>r_code = cd, r_program = prog\<rparr>)"

text \<open>\<open>project.Contract\<close> and \<open>project.Aliases\<close> are declared outside the sources at
  hand; the resolver reads the fields \<open>Source\<close> and \<open>Target\<close> of the former and
  ranges over the latter as a map from a source path to an address in
  hexadecimal.\<close>

record project_Contract =
  Name :: string
  Source :: string
  Target :: Address

fun sourceTarget_contracts ::
  "project_Contract list \<Rightarrow> (string \<rightharpoonup> string) \<Rightarrow> (string \<rightharpoonup> string)" where
  "sourceTarget_contracts [] st = st"
| "sourceTarget_contracts (contract # cs) st =
     sourceTarget_contracts cs
       (st(path_Clean (Source contract) \<mapsto> Address_String (Target contract)))"

fun sourceTarget_aliases ::
  "(string \<rightharpoonup> string) \<Rightarrow> string list \<Rightarrow> (string \<rightharpoonup> string) \<Rightarrow> (string \<rightharpoonup> string)" where
  "sourceTarget_aliases als [] st = st"
| "sourceTarget_aliases als (src # srcs) st =
     (case als src of
        None \<Rightarrow> sourceTarget_aliases als srcs st
      | Some tgt \<Rightarrow>
          sourceTarget_aliases als srcs
            (st(path_Clean src \<mapsto> Address_String (HexToAddress tgt))))"

definition getSourceTarget ::
  "project_Contract list \<Rightarrow> (string \<rightharpoonup> string) \<Rightarrow> string list \<Rightarrow> (string \<rightharpoonup> string)" where
  "getSourceTarget cs als aliases_order =
     sourceTarget_aliases als aliases_order (sourceTarget_contracts cs Map.empty)"

definition replaceImport :: "Resolver \<Rightarrow> string \<Rightarrow> string \<Rightarrow> string" where
  "replaceImport r fr to = strings_Replace (r_code r) (quoted fr) (''0x'' @ to) 1"

definition unresolved_import :: "string \<Rightarrow> string" where
  "unresolved_import imp =
     ''import '' @ imp @ '' could not be resolved from the configuration''"

text \<open>Reading a Go \<open>map[string]string\<close> at a key: the empty string when the map does
  not hold the key.\<close>

definition map_index :: "(string \<rightharpoonup> string) \<Rightarrow> string \<Rightarrow> string" where
  "map_index m k = (case m k of None \<Rightarrow> [] | Some v \<Rightarrow> v)"

text \<open>The loop of \<open>ResolveImports\<close>.  The result comes with the resolver as the call
  left it.\<close>

fun resolve_loop ::
  "Resolver \<Rightarrow> string \<Rightarrow> (string \<rightharpoonup> string) \<Rightarrow> string list \<Rightarrow> (error + string) \<times> Resolver" where
  "resolve_loop r codePath sourceTarget [] = (Inr (r_code r), r)"
| "resolve_loop r codePath sourceTarget (imp # imps) =
     (let tgt = map_index sourceTarget (absolutePath codePath imp)
      in if tgt \<noteq> [] then
           resolve_loop (r\<lparr>r_code := replaceImport r imp tgt\<rparr>) codePath sourceTarget imps
         else (Inl (Errorf (unresolved_import imp)), r))"

definition ResolveImports ::
  "string list \<Rightarrow> Resolver \<Rightarrow> string \<Rightarrow> project_Contract list \<Rightarrow> (string \<rightharpoonup> string)
     \<Rightarrow> (error + string) \<times> Resolver" where
  "ResolveImports aliases_order r codePath cs als =
     resolve_loop r codePath (getSourceTarget cs als aliases_order)
       (getFileImports (r_program r))"

text \<open>A sequence of registrations, each a name, a source path and a target.\<close>

fun add_all ::
  "World \<Rightarrow> Preprocessor \<Rightarrow> (string \<times> string \<times> Address) list \<Rightarrow> error + Preprocessor" where
  "add_all w p [] = Inr p"
| "add_all w p ((nm, src, tgt) # regs) =
     (case AddContractSource w p nm src tgt of
        Inl err \<Rightarrow> Inl err
      | Inr p' \<Rightarrow> add_all w p' regs)"

section \<open>Properties of extraction, normalization and alias keys\<close>

fun is_StringLocation :: "Location \<Rightarrow> bool" where
  "is_StringLocation (StringLocation s) = True"
| "is_StringLocation (AddressLocation a n) = False"
| "is_StringLocation (IdentifierLocation i) = False"

lemma imports_string_locations:
  "Contract_imports prog = map Location_String (filter is_StringLocation prog)"
proof (induction prog)
  case Nil
  show ?case by simp
next
  case (Cons l prog)
  then show ?case
    by (cases l) simp_all
qed

lemma Address_String_zero: "Address_String zero_Address = ''0000000000000000''"
  by code_simp

lemma getFileImports_zero:
  "getFileImports prog =
     replicate (length (file_locations prog)) ''0000000000000000''"
proof (induction prog)
  case Nil
  show ?case by (simp add: file_locations_def)
next
  case (Cons l prog)
  then show ?case
    by (cases l) (simp_all add: file_locations_def AddressLocation_String_def Address_String_zero)
qed

text \<open>
  Claim C5 (location extraction returns exactly the location strings of the
  non-address import declarations, in both modes).  The deployment-mode extraction
  returns the strings of the string locations (lemma \<open>imports_string_locations\<close>);
  the ad-hoc extraction does not.  For a
  program with the two imports \<open>"./A.cdc"\<close> and \<open>"./B.cdc"\<close>, \<open>getFileImports\<close> calls
  \<open>String()\<close> on the zero value that the failed type assertion leaves in \<open>location\<close>
  and returns the zero address twice, while \<open>Contract_imports\<close> returns the two location
  strings.
\<close>

theorem C5_getFileImports_zero_value:
  "getFileImports [StringLocation ''./A.cdc'', AddressLocation zero_Address ''X'',
       StringLocation ''./B.cdc'']
     = [''0000000000000000'', ''0000000000000000'']
   \<and> Contract_imports [StringLocation ''./A.cdc'', AddressLocation zero_Address ''X'',
       StringLocation ''./B.cdc'']
     = [''./A.cdc'', ''./B.cdc'']"
  by (simp add: AddressLocation_String_def Address_String_zero StringLocation_String_def)

lemma path_Clean_not_empty: "path_Clean path \<noteq> []"
  by (simp add: path_Clean_def Let_def)

lemma path_Dir_not_empty: "path_Dir path \<noteq> []"
  by (simp add: path_Dir_def path_Clean_not_empty)

lemma absolutePath_Clean:
  "absolutePath basePath location = path_Clean (path_Dir basePath @ ''/'' @ location)"
proof -
  obtain c d where dir: "path_Dir basePath = c # d"
    using path_Dir_not_empty [of basePath] by (cases "path_Dir basePath") auto
  show ?thesis
    by (simp add: absolutePath_def path_Join_def dir)
qed

lemma path_Clean_root_slash:
  "path_Clean (''/'' @ ''/'' @ CHR ''/'' # l) = path_Clean (CHR ''/'' # l)"
  by (simp add: path_Clean_def clean_loop.simps)

text \<open>
  Claim C6, as stated (an absolute location is normalized to its own cleaned
  path), fails: the location \<open>/abs/B.cdc\<close> imported from \<open>contracts/A.cdc\<close> is
  normalized to \<open>contracts/abs/B.cdc\<close>, a path under the importing module's
  directory, while the cleaned location is \<open>/abs/B.cdc\<close>.
\<close>

theorem C6_absolute_location_counterexample:
  "absolutePath ''contracts/A.cdc'' ''/abs/B.cdc'' = ''contracts/abs/B.cdc''
   \<and> path_Clean ''/abs/B.cdc'' = ''/abs/B.cdc''
   \<and> absolutePath ''contracts/A.cdc'' ''/abs/B.cdc'' \<noteq> path_Clean ''/abs/B.cdc''"
  by code_simp

text \<open>
  Claim C6, amended: for every importing module source path and every location
  string, absolute or not, the normalized key is the cleaned concatenation of the
  importing module's directory, a slash and the location (\<open>path.Join\<close> gives an
  absolute second element no special treatment); for an absolute location it is
  the cleaned location itself when the importing module's directory is the root
  directory \<open>/\<close>.
\<close>

theorem C6_absolutePath_joins_directory:
  "absolutePath basePath location = path_Clean (path_Dir basePath @ ''/'' @ location)
   \<and> (path_Dir basePath = ''/'' \<longrightarrow> prefix ''/'' location \<longrightarrow>
        absolutePath basePath location = path_Clean location)"
proof (intro conjI impI)
  show "absolutePath basePath location = path_Clean (path_Dir basePath @ ''/'' @ location)"
    by (rule absolutePath_Clean)
next
  assume root: "path_Dir basePath = ''/''" and abs: "prefix ''/'' location"
  from abs obtain l where l: "location = CHR ''/'' # l"
    by (cases location) auto
  have "absolutePath basePath location = path_Clean (''/'' @ ''/'' @ CHR ''/'' # l)"
    by (simp add: absolutePath_Clean root l)
  also have "\<dots> = path_Clean (CHR ''/'' # l)"
    by (rule path_Clean_root_slash)
  finally show "absolutePath basePath location = path_Clean location"
    by (simp add: l)
qed

theorem C6_absolutePath_joins_directory_witness:
  "path_Dir ''/A.cdc'' = ''/'' \<and> prefix ''/'' ''/abs/B.cdc''
   \<and> absolutePath ''/A.cdc'' ''/abs/B.cdc'' = path_Clean ''/abs/B.cdc''
   \<and> absolutePath ''/A.cdc'' ''/abs/B.cdc'' = ''/abs/B.cdc''"
proof -
  have dir: "path_Dir ''/A.cdc'' = ''/''" by code_simp
  have abs: "prefix ''/'' ''/abs/B.cdc''" by simp
  have cl: "path_Clean ''/abs/B.cdc'' = ''/abs/B.cdc''" by code_simp
  from C6_absolutePath_joins_directory [of "''/A.cdc''" "''/abs/B.cdc''"] dir abs
  have "absolutePath ''/A.cdc'' ''/abs/B.cdc'' = path_Clean ''/abs/B.cdc''"
    by blast
  with dir abs cl show ?thesis by simp
qed

text \<open>
  Claim C7 (the alias key is the final path segment with a trailing source-file
  extension stripped, the rest of the name left intact).  \<open>getAliasForImport\<close>
  removes every occurrence of \<open>.cdc\<close> from the final segment, not only a trailing
  one: for the location \<open>./My.cdcHelper.cdc\<close> the final segment is
  \<open>My.cdcHelper.cdc\<close>, the claim's key is \<open>My.cdcHelper\<close> and the code's key is
  \<open>MyHelper\<close>.
\<close>

theorem C7_getAliasForImport_inner_extension:
  "filepath_Base ''./My.cdcHelper.cdc'' = ''My.cdcHelper.cdc''
   \<and> getAliasForImport ''./My.cdcHelper.cdc'' = ''MyHelper''
   \<and> getAliasForImport ''./My.cdcHelper.cdc'' \<noteq> ''My.cdcHelper''"
  by code_simp

section \<open>Registration\<close>

text \<open>What registration with distinct paths maintains: the working set has as many
  keys as contract objects, and the contract under a key carries that key as its
  source and its own position as its ID.\<close>

definition registered :: "Preprocessor \<Rightarrow> bool" where
  "registered p \<longleftrightarrow>
     finite (dom (contracts p)) \<and> card (dom (contracts p)) = length (objs p) \<and>
     (\<forall>k c. contracts p k = Some c \<longrightarrow>
        c < length (objs p) \<and> source (objs p ! c) = k \<and> index (objs p ! c) = int c)"

lemma registered_New: "registered (NewPreprocessor als)"
  by (simp add: registered_def NewPreprocessor_def)

lemma AddContractSource_Inr:
  assumes "AddContractSource w p nm src tgt = Inr p'"
  obtains c where "newContract w (int (card (dom (contracts p)))) nm src tgt = Inr c"
    and "p' = p\<lparr>objs := objs p @ [c], contracts := (contracts p)(src \<mapsto> length (objs p))\<rparr>"
    and "source c = src" and "index c = int (card (dom (contracts p)))"
proof -
  from assms obtain c where c: "newContract w (int (card (dom (contracts p)))) nm src tgt = Inr c"
    and p': "p' = p\<lparr>objs := objs p @ [c], contracts := (contracts p)(source c \<mapsto> length (objs p))\<rparr>"
    by (auto simp: AddContractSource_def split: sum.splits)
  from c have "source c = src" "index c = int (card (dom (contracts p)))"
    by (auto simp: newContract_def split: option.splits)
  with c p' that show thesis by simp
qed

lemma AddContractSource_registered:
  assumes reg: "registered p" and new: "src \<notin> dom (contracts p)"
    and add: "AddContractSource w p nm src tgt = Inr p'"
  shows "registered p'" and "contracts p' = (contracts p)(src \<mapsto> length (objs p))"
proof -
  from add obtain c where
    p': "p' = p\<lparr>objs := objs p @ [c], contracts := (contracts p)(src \<mapsto> length (objs p))\<rparr>"
    and src: "source c = src" and idx: "index c = int (card (dom (contracts p)))"
    by (rule AddContractSource_Inr)
  from reg have fin: "finite (dom (contracts p))"
    and card: "card (dom (contracts p)) = length (objs p)"
    and ent: "\<And>k r. contracts p k = Some r \<Longrightarrow>
        r < length (objs p) \<and> source (objs p ! r) = k \<and> index (objs p ! r) = int r"
    by (auto simp: registered_def)
  show "contracts p' = (contracts p)(src \<mapsto> length (objs p))"
    by (simp add: p')
  have "card (dom (contracts p')) = Suc (length (objs p))"
    using fin new card by (simp add: p')
  moreover have "\<forall>k r. contracts p' k = Some r \<longrightarrow>
        r < length (objs p') \<and> source (objs p' ! r) = k \<and> index (objs p' ! r) = int r"
    using ent src idx card by (auto simp: p' nth_append less_Suc_eq)
  ultimately show "registered p'"
    using fin by (simp add: registered_def p')
qed

lemma add_all_registered:
  assumes "add_all w p regs = Inr p'" and "registered p"
    and "distinct (map (\<lambda>(nm, src, tgt). src) regs)"
    and "set (map (\<lambda>(nm, src, tgt). src) regs) \<inter> dom (contracts p) = {}"
  shows "registered p' \<and>
     (\<forall>k. k \<notin> set (map (\<lambda>(nm, src, tgt). src) regs) \<longrightarrow> contracts p' k = contracts p k) \<and>
     (\<forall>i<length regs. contracts p' (fst (snd (regs ! i))) = Some (length (objs p) + i))"
  using assms
proof (induction regs arbitrary: p)
  case Nil
  then show ?case by simp
next
  case (Cons reg regs)
  obtain nm src tgt where reg: "reg = (nm, src, tgt)" by (cases reg) auto
  from Cons.prems(1) obtain p1 where
    p1: "AddContractSource w p nm src tgt = Inr p1" and rest: "add_all w p1 regs = Inr p'"
    by (auto simp: reg split: sum.splits)
  from Cons.prems(4) have new: "src \<notin> dom (contracts p)" by (auto simp: reg)
  from AddContractSource_registered [OF Cons.prems(2) new p1]
  have reg1: "registered p1" and c1: "contracts p1 = (contracts p)(src \<mapsto> length (objs p))"
    by auto
  from p1 have len1: "length (objs p1) = Suc (length (objs p))"
    by (auto elim!: AddContractSource_Inr)
  from Cons.prems(3) have d: "distinct (map (\<lambda>(nm, src, tgt). src) regs)"
    and nsrc: "src \<notin> set (map (\<lambda>(nm, src, tgt). src) regs)"
    by (auto simp: reg)
  from Cons.prems(4) nsrc have disj: "set (map (\<lambda>(nm, src, tgt). src) regs) \<inter> dom (contracts p1) = {}"
    by (auto simp: c1 reg)
  from Cons.IH [OF rest reg1 d disj]
  have regp': "registered p'"
    and keep: "\<And>k. k \<notin> set (map (\<lambda>(nm, src, tgt). src) regs) \<Longrightarrow> contracts p' k = contracts p1 k"
    and ih: "\<And>i. i < length regs \<Longrightarrow> contracts p' (fst (snd (regs ! i))) = Some (length (objs p1) + i)"
    by auto
  have first: "contracts p' src = Some (length (objs p))"
    using keep [OF nsrc] by (simp add: c1)
  have others: "\<forall>k. k \<notin> set (map (\<lambda>(nm, src, tgt). src) (reg # regs)) \<longrightarrow> contracts p' k = contracts p k"
    using keep by (auto simp: c1 reg)
  have "\<forall>i<length (reg # regs). contracts p' (fst (snd ((reg # regs) ! i))) = Some (length (objs p) + i)"
  proof (intro allI impI)
    fix i assume "i < length (reg # regs)"
    then show "contracts p' (fst (snd ((reg # regs) ! i))) = Some (length (objs p) + i)"
      using first ih [of "i - 1"] by (cases i) (auto simp: reg len1)
  qed
  with regp' others show ?case by blast
qed

text \<open>
  Claim C10: after a sequence of successful \<open>AddContractSource\<close> calls with pairwise
  distinct source paths, starting from a new preprocessor, the contract registered
  by the \<open>i\<close>-th call (counting from \<open>0\<close>) has ID \<open>i\<close>, the number of contracts
  registered before it; the working set holds exactly the registered paths, and
  the IDs of its contracts are pairwise distinct.
\<close>

theorem C10_ids_are_registration_positions:
  assumes "add_all w (NewPreprocessor als) regs = Inr p"
    and "distinct (map (\<lambda>(nm, src, tgt). src) regs)"
  shows "(\<forall>i<length regs. \<exists>c. contracts p (fst (snd (regs ! i))) = Some c \<and> ID p c = int i)
    \<and> dom (contracts p) = set (map (\<lambda>(nm, src, tgt). src) regs)
    \<and> inj_on (ID p) (ran (contracts p))"
proof -
  have e: "set (map (\<lambda>(nm, src, tgt). src) regs) \<inter> dom (contracts (NewPreprocessor als)) = {}"
    by (simp add: NewPreprocessor_def)
  from add_all_registered [OF assms(1) registered_New assms(2) e]
  have reg: "registered p"
    and keep: "\<And>k. k \<notin> set (map (\<lambda>(nm, src, tgt). src) regs) \<Longrightarrow> contracts p k = None"
    and pos: "\<And>i. i < length regs \<Longrightarrow> contracts p (fst (snd (regs ! i))) = Some i"
    by (auto simp: NewPreprocessor_def)
  from reg have idx: "\<And>k c. contracts p k = Some c \<Longrightarrow> ID p c = int c"
    by (auto simp: registered_def ID_def)
  have 1: "\<forall>i<length regs. \<exists>c. contracts p (fst (snd (regs ! i))) = Some c \<and> ID p c = int i"
    using pos idx by blast
  have 2: "dom (contracts p) = set (map (\<lambda>(nm, src, tgt). src) regs)"
  proof
    show "dom (contracts p) \<subseteq> set (map (\<lambda>(nm, src, tgt). src) regs)"
    proof
      fix k assume "k \<in> dom (contracts p)"
      then have "contracts p k \<noteq> None" by auto
      with keep [of k] show "k \<in> set (map (\<lambda>(nm, src, tgt). src) regs)" by blast
    qed
    show "set (map (\<lambda>(nm, src, tgt). src) regs) \<subseteq> dom (contracts p)"
    proof
      fix k assume "k \<in> set (map (\<lambda>(nm, src, tgt). src) regs)"
      then obtain i where "i < length regs" "k = fst (snd (regs ! i))"
        by (auto simp: in_set_conv_nth split: prod.splits)
      with pos show "k \<in> dom (contracts p)" by auto
    qed
  qed
  have 3: "inj_on (ID p) (ran (contracts p))"
    by (rule inj_onI) (auto simp: ran_def dest!: idx)
  from 1 2 3 show ?thesis by blast
qed


text \<open>A world with three files for the examples: \<open>A.cdc\<close> imports nothing, \<open>B.cdc\<close>
  imports \<open>"./A.cdc"\<close>, \<open>C.cdc\<close> imports \<open>"./B.cdc"\<close>.\<close>

definition code_A :: string where
  "code_A = ''pub contract A {}''"

definition code_B :: string where
  "code_B = ''import A from '' @ quoted ''./A.cdc'' @ '' pub contract B {}''"

definition code_C :: string where
  "code_C = ''import B from '' @ quoted ''./B.cdc'' @ '' pub contract C {}''"

definition example_world :: World where
  "example_world =
     \<lparr>ReadFile = [''A.cdc'' \<mapsto> code_A, ''B.cdc'' \<mapsto> code_B, ''C.cdc'' \<mapsto> code_C],
      ParseProgram = [code_A \<mapsto> [], code_B \<mapsto> [StringLocation ''./A.cdc''],
                      code_C \<mapsto> [StringLocation ''./B.cdc'']]\<rparr>"

definition example_regs :: "(string \<times> string \<times> Address) list" where
  "example_regs =
     [(''A'', ''A.cdc'', HexToAddress ''01''), (''B'', ''B.cdc'', HexToAddress ''02''),
      (''C'', ''C.cdc'', HexToAddress ''03'')]"

lemma example_codes_distinct: "code_A \<noteq> code_B" "code_A \<noteq> code_C" "code_B \<noteq> code_C"
  by (simp_all add: code_A_def code_B_def code_C_def)

text \<open>The working set that these registrations build, and key orders for one call of
  \<open>PrepareForDeployment\<close> on it (each loop in another order).\<close>

definition example_set :: Preprocessor where
  "example_set =
     \<lparr>p_aliases = Map.empty,
      contracts = [''A.cdc'' \<mapsto> 0, ''B.cdc'' \<mapsto> 1, ''C.cdc'' \<mapsto> 2],
      objs = [\<lparr>index = 0, name = ''A'', source = ''A.cdc'', target = HexToAddress ''01'',
               code = code_A, program = [],
               dependencies = Map.empty, aliases = Map.empty\<rparr>,
              \<lparr>index = 1, name = ''B'', source = ''B.cdc'', target = HexToAddress ''02'',
               code = code_B, program = [StringLocation ''./A.cdc''],
               dependencies = Map.empty, aliases = Map.empty\<rparr>,
              \<lparr>index = 2, name = ''C'', source = ''C.cdc'', target = HexToAddress ''03'',
               code = code_C, program = [StringLocation ''./B.cdc''],
               dependencies = Map.empty, aliases = Map.empty\<rparr>]\<rparr>"

definition example_it :: iteration where
  "example_it =
     \<lparr>resolve_keys = [''C.cdc'', ''A.cdc'', ''B.cdc''],
      node_keys = [''B.cdc'', ''C.cdc'', ''A.cdc''],
      edge_keys = [''A.cdc'', ''C.cdc'', ''B.cdc''],
      edge_deps = (\<lambda>k. if k = ''B.cdc'' then [''./A.cdc'']
                       else if k = ''C.cdc'' then [''./B.cdc''] else []),
      topo_nodes = [2, 0, 1],
      topo_from = (\<lambda>v. if v = 0 then [1] else if v = 1 then [2] else [])\<rparr>"

lemma add_all_example:
  "add_all example_world (NewPreprocessor Map.empty) example_regs = Inr example_set"
  by (simp add: example_regs_def example_world_def AddContractSource_def newContract_def
      NewPreprocessor_def example_codes_distinct example_set_def numeral_2_eq_2)

lemma PrepareForDeployment_example:
  "map_option fst (PrepareForDeployment example_it example_set) = Some (Inr [0, 1, 2])"
  by code_simp

lemma PrepareForDeployment_example_twice:
  "Option.bind (PrepareForDeployment example_it example_set)
     (\<lambda>(res, p'). map_option fst (PrepareForDeployment example_it p'))
   = Some (Inr [0, 1, 2])"
  by code_simp

theorem C10_ids_are_registration_positions_witness:
  "\<exists>p. add_all example_world (NewPreprocessor Map.empty) example_regs = Inr p
     \<and> distinct (map (\<lambda>(nm, src, tgt). src) example_regs)
     \<and> (\<exists>c. contracts p ''A.cdc'' = Some c \<and> ID p c = 0)
     \<and> (\<exists>c. contracts p ''B.cdc'' = Some c \<and> ID p c = 1)
     \<and> (\<exists>c. contracts p ''C.cdc'' = Some c \<and> ID p c = 2)"
proof -
  obtain p where run: "add_all example_world (NewPreprocessor Map.empty) example_regs = Inr p"
    by (simp add: example_regs_def example_world_def AddContractSource_def newContract_def
        NewPreprocessor_def example_codes_distinct)
  have d: "distinct (map (\<lambda>(nm, src, tgt). src) example_regs)"
    by (simp add: example_regs_def)
  from C10_ids_are_registration_positions [OF run d]
  have ids: "\<And>i. i < length example_regs \<Longrightarrow>
      \<exists>c. contracts p (fst (snd (example_regs ! i))) = Some c \<and> ID p c = int i"
    by blast
  from ids [of 0] ids [of 1] ids [of 2] run d show ?thesis
    by (simp add: example_regs_def)
qed

section \<open>Resolution: what it changes, and unresolved imports\<close>

text \<open>\<open>same_module c c'\<close>: the contract \<open>c'\<close> has the creation-time fields of \<open>c\<close>, and
  every key of the two maps of \<open>c\<close>.  \<open>frame p p'\<close>: the preprocessor \<open>p'\<close> has the
  working set and the alias table of \<open>p\<close>, and its contract objects are the same
  modules.\<close>

definition same_module :: "Contract \<Rightarrow> Contract \<Rightarrow> bool" where
  "same_module c c' \<longleftrightarrow>
     index c' = index c \<and> name c' = name c \<and> source c' = source c \<and>
     target c' = target c \<and> code c' = code c \<and> program c' = program c \<and>
     dom (dependencies c) \<subseteq> dom (dependencies c') \<and> dom (aliases c) \<subseteq> dom (aliases c')"

definition frame :: "Preprocessor \<Rightarrow> Preprocessor \<Rightarrow> bool" where
  "frame p p' \<longleftrightarrow>
     contracts p' = contracts p \<and> p_aliases p' = p_aliases p \<and>
     length (objs p') = length (objs p) \<and>
     (\<forall>c<length (objs p). same_module (objs p ! c) (objs p' ! c))"


lemma frame_refl: "frame p p"
  by (simp add: frame_def same_module_def)

lemma frame_trans: "frame p p' \<Longrightarrow> frame p' p'' \<Longrightarrow> frame p p''"
  unfolding frame_def same_module_def by (auto; blast)

lemma nth_update_same_module:
  assumes "same_module (xs ! c) x" and "i < length xs"
  shows "same_module (xs ! i) (xs[c := x] ! i)"
proof (cases "i = c")
  case True
  with assms show ?thesis by simp
next
  case False
  then show ?thesis by (simp add: same_module_def)
qed

lemma frame_addDependency: "frame p (addDependency p c location dep)"
proof -
  let ?x = "(objs p ! c)\<lparr>dependencies := (dependencies (objs p ! c))(location \<mapsto> dep)\<rparr>"
  have "same_module (objs p ! c) ?x"
    by (auto simp: same_module_def)
  then have "\<forall>i<length (objs p). same_module (objs p ! i) ((objs p)[c := ?x] ! i)"
    by (blast intro: nth_update_same_module)
  then show ?thesis
    by (simp add: frame_def addDependency_def)
qed

lemma frame_addAlias: "frame p (addAlias p c location tgt)"
proof -
  let ?x = "(objs p ! c)\<lparr>aliases := (aliases (objs p ! c))(location \<mapsto> tgt)\<rparr>"
  have "same_module (objs p ! c) ?x"
    by (auto simp: same_module_def)
  then have "\<forall>i<length (objs p). same_module (objs p ! i) ((objs p)[c := ?x] ! i)"
    by (blast intro: nth_update_same_module)
  then show ?thesis
    by (simp add: frame_def addAlias_def)
qed

lemma resolve_imports_frame: "frame p (snd (resolve_imports p c locations))"
proof (induction locations arbitrary: p)
  case Nil
  show ?case by (simp add: frame_refl)
next
  case (Cons location locations)
  show ?case
    using Cons.IH [of "addDependency p c location d" for d]
      Cons.IH [of "addAlias p c location a" for a]
    by (auto simp: Let_def frame_refl split: option.splits
        intro: frame_trans [OF frame_addDependency] frame_trans [OF frame_addAlias])
qed

lemma resolve_contracts_frame: "frame p (snd (resolve_contracts p ks))"
proof (induction ks arbitrary: p)
  case Nil
  show ?case by (simp add: frame_refl)
next
  case (Cons k ks)
  show ?case
  proof (cases "contracts p k")
    case None
    with Cons.IH show ?thesis by simp
  next
    case (Some c)
    obtain e p1 where r: "resolve_imports p c (Contract_imports (program (objs p ! c))) = (e, p1)"
      by (cases "resolve_imports p c (Contract_imports (program (objs p ! c)))")
    with resolve_imports_frame [of p c "Contract_imports (program (objs p ! c))"]
    have f1: "frame p p1" by simp
    show ?thesis
      using Some r f1 frame_trans [OF f1 Cons.IH [of p1]]
      by (cases e) auto
  qed
qed






















lemma PrepareForDeployment_state:
  "PrepareForDeployment it p = Some (r, p') \<Longrightarrow> p' = snd (resolve_contracts p (resolve_keys it))"
  by (cases "resolve_contracts p (resolve_keys it)")
     (auto simp: PrepareForDeployment_def split: option.splits)

lemma PrepareForDeployment_frame:
  "PrepareForDeployment it p = Some (r, p') \<Longrightarrow> frame p p'"
  by (drule PrepareForDeployment_state) (simp add: resolve_contracts_frame)

lemma resolve_loop_program:
  "r_program (snd (resolve_loop r codePath st imps)) = r_program r"
  by (induction imps arbitrary: r) (simp_all add: Let_def)

lemma resolve_loop_code:
  "fst (resolve_loop r codePath st imps) = Inr txt \<Longrightarrow>
     r_code (snd (resolve_loop r codePath st imps)) = txt"
  by (induction imps arbitrary: r) (simp_all add: Let_def split: if_splits)

text \<open>A resolver for code that imports the file \<open>0000000000000000\<close>, and a
  configuration that holds a contract at that path.\<close>

definition code_Z :: string where
  "code_Z = ''import X from '' @ quoted ''0000000000000000''"

definition example_rewriting :: Resolver where
  "example_rewriting = \<lparr>r_code = code_Z, r_program = [StringLocation ''0000000000000000'']\<rparr>"

definition example_config :: "project_Contract list" where
  "example_config = [\<lparr>Name = ''X'', Source = ''0000000000000000'', Target = HexToAddress ''05''\<rparr>]"

text \<open>
  Claim C8, as stated (no resolution call rewrites stored text), fails in ad-hoc
  mode: \<open>ResolveImports\<close> assigns every rewritten text to the field \<open>code\<close> of the
  resolver, so after the call the stored text is the rewritten one.
\<close>

theorem C8_resolver_code_counterexample:
  "fst (ResolveImports [] example_rewriting ''tx.cdc'' example_config Map.empty)
     = Inr ''import X from 0x0000000000000005''
   \<and> r_code example_rewriting = ''import X from '' @ quoted ''0000000000000000''
   \<and> r_code (snd (ResolveImports [] example_rewriting ''tx.cdc'' example_config Map.empty))
     = ''import X from 0x0000000000000005''
   \<and> r_code (snd (ResolveImports [] example_rewriting ''tx.cdc'' example_config Map.empty))
     \<noteq> r_code example_rewriting"
  by code_simp

text \<open>
  Claim C8, amended.  Deployment mode: a call of \<open>PrepareForDeployment\<close>, successful
  or failing, leaves the working set, the alias table and, of every contract, the
  fields \<open>index\<close>, \<open>name\<close>, \<open>source\<close>, \<open>target\<close>, \<open>code\<close> and \<open>program\<close> as they
  were and removes no key of \<open>dependencies\<close> and \<open>aliases\<close>; so does a second call
  after it.  Ad-hoc mode: \<open>ResolveImports\<close> leaves the parsed program as it was, and
  after a successful call the stored code is the returned, rewritten text.
\<close>

theorem C8_resolution_frame:
  "(PrepareForDeployment it p = Some (res, p') \<longrightarrow> frame p p' \<and>
      (PrepareForDeployment it2 p' = Some (res2, p'') \<longrightarrow> frame p p''))
   \<and> r_program (snd (ResolveImports ao r codePath cs als)) = r_program r
   \<and> (fst (ResolveImports ao r codePath cs als) = Inr txt \<longrightarrow>
        r_code (snd (ResolveImports ao r codePath cs als)) = txt)"
  by (auto simp: ResolveImports_def resolve_loop_program resolve_loop_code
      dest: PrepareForDeployment_frame intro: frame_trans)


theorem C8_resolution_frame_witness:
  "(\<exists>res p' res2 p''. PrepareForDeployment example_it example_set = Some (res, p')
      \<and> PrepareForDeployment example_it p' = Some (res2, p'')
      \<and> frame example_set p' \<and> frame example_set p'')
   \<and> (\<exists>txt. fst (ResolveImports [] example_rewriting ''tx.cdc'' example_config Map.empty)
          = Inr txt
      \<and> r_code (snd (ResolveImports [] example_rewriting ''tx.cdc'' example_config Map.empty))
          = txt)"
proof -
  from PrepareForDeployment_example_twice obtain res p' res2 p'' where
    1: "PrepareForDeployment example_it example_set = Some (res, p')"
    and 2: "PrepareForDeployment example_it p' = Some (res2, p'')"
    by (auto simp: bind_eq_Some_conv)
  have 3: "fst (ResolveImports [] example_rewriting ''tx.cdc'' example_config Map.empty)
      = Inr ''import X from 0x0000000000000005''"
    by code_simp
  note inst = C8_resolution_frame [of example_it example_set res p' example_it res2 p''
      "[]" example_rewriting "''tx.cdc''" example_config Map.empty
      "''import X from 0x0000000000000005''"]
  from inst 1 2 have "frame example_set p'" "frame example_set p''" by blast+
  moreover from inst 3
  have "r_code (snd (ResolveImports [] example_rewriting ''tx.cdc'' example_config Map.empty))
      = ''import X from 0x0000000000000005''"
    by blast
  ultimately show ?thesis using 1 2 3 by blast
qed

section \<open>Text substitution\<close>

lemma strings_Index_occurrence:
  "strings_Index s old = Some j \<Longrightarrow> s = take j s @ old @ drop (j + length old) s"
proof (induction s arbitrary: j)
  case Nil
  then show ?case by (simp split: if_splits)
next
  case (Cons c s)
  show ?case
  proof (cases "prefix old (c # s)")
    case True
    with Cons.prems have "j = 0" by simp
    with True show ?thesis by (auto simp: prefix_def)
  next
    case False
    with Cons.prems obtain i where i: "strings_Index s old = Some i" "j = Suc i"
      by auto
    from Cons.IH [OF i(1)] i(2) show ?thesis by simp
  qed
qed

lemma strings_Count_pos:
  "old \<noteq> [] \<Longrightarrow> strings_Index s old = Some j \<Longrightarrow> 0 < strings_Count s old"
  by (subst strings_Count.simps) simp

lemma strings_Count_none:
  "old \<noteq> [] \<Longrightarrow> strings_Index s old = None \<Longrightarrow> strings_Count s old = 0"
  by (subst strings_Count.simps) simp

lemma strings_Replace_first:
  assumes "old \<noteq> []"
  shows "strings_Replace s old new 1 =
     (case strings_Index s old of
        None \<Rightarrow> s
      | Some j \<Rightarrow> take j s @ new @ drop (j + length old) s)"
proof (cases "strings_Index s old")
  case None
  with assms show ?thesis
    by (simp add: strings_Replace_def strings_Count_none)
next
  case (Some j)
  show ?thesis
  proof (cases "old = new")
    case True
    with Some strings_Index_occurrence [OF Some] show ?thesis
      by (simp add: strings_Replace_def)
  next
    case False
    from strings_Count_pos [OF assms Some] obtain m where m: "strings_Count s old = Suc m"
      by (cases "strings_Count s old") auto
    with False assms Some show ?thesis
      by (simp add: strings_Replace_def)
  qed
qed

lemma quoted_not_empty: "quoted location \<noteq> []"
  by (simp add: quoted_def)

text \<open>
  One replacement step of both resolvers, \<open>strings.Replace(s, "location", new, 1)\<close>,
  written with the position of the first occurrence: the text is kept when the
  quoted location does not occur in it, and otherwise the occurrence at the least
  position is replaced.  An entry is a location and the text that replaces it.
\<close>

definition rewrite_first_occurrence :: "string \<Rightarrow> string \<times> string \<Rightarrow> string" where
  "rewrite_first_occurrence s e =
     (case strings_Index s (quoted (fst e)) of
        None \<Rightarrow> s
      | Some j \<Rightarrow> take j s @ snd e @ drop (j + length (quoted (fst e))) s)"

text \<open>The entries of the two loops of \<open>TranspiledCode\<close>, in the order of the keys, and
  of the loop of \<open>ResolveImports\<close>, in the order of the extracted imports.\<close>

definition dependency_entries :: "Contract list \<Rightarrow> Contract \<Rightarrow> string list \<Rightarrow> (string \<times> string) list" where
  "dependency_entries os c ds =
     map (\<lambda>l. (l, ''0x'' @ Address_String (target (os ! the (dependencies c l))))) ds"

definition alias_entries :: "Contract \<Rightarrow> string list \<Rightarrow> (string \<times> string) list" where
  "alias_entries c ao = map (\<lambda>l. (l, ''0x'' @ Address_String (the (aliases c l)))) ao"

definition import_entries ::
  "(string \<rightharpoonup> string) \<Rightarrow> string \<Rightarrow> string list \<Rightarrow> (string \<times> string) list" where
  "import_entries st codePath imps =
     map (\<lambda>imp. (imp, ''0x'' @ map_index st (absolutePath codePath imp))) imps"

text \<open>
  A module text seen as its quoted literals: \<open>layout segs rest\<close> is the text made of,
  for each pair \<open>(t, l)\<close> of \<open>segs\<close>, the text \<open>t\<close> and the quoted literal \<open>l\<close>,
  followed by \<open>rest\<close>.  \<open>quoting segs rest\<close> says that the double quotes of the text
  are those around the literals.  A location is \<open>distinguishable\<close> in the text when
  it holds no double quote, is not one of the texts between the literals, and
  holds none of the replacement texts.
\<close>

definition quote_free :: "string \<Rightarrow> bool" where
  "quote_free s \<longleftrightarrow> CHR 0x22 \<notin> set s"

fun layout :: "(string \<times> string) list \<Rightarrow> string \<Rightarrow> string" where
  "layout [] rest = rest"
| "layout ((t, l) # segs) rest = t @ quoted l @ layout segs rest"

definition quoting :: "(string \<times> string) list \<Rightarrow> string \<Rightarrow> bool" where
  "quoting segs rest \<longleftrightarrow> (\<forall>(t, l)\<in>set segs. quote_free t \<and> quote_free l) \<and> quote_free rest"

definition distinguishable :: "(string \<times> string) list \<Rightarrow> string list \<Rightarrow> string \<Rightarrow> bool" where
  "distinguishable segs news k \<longleftrightarrow>
     quote_free k \<and> k \<notin> fst ` set segs \<and> (\<forall>new\<in>set news. \<not> sublist new k)"

text \<open>
  What the specification asks for on such a text.  \<open>rewrite_first d a\<close>, for the
  replacement texts \<open>d\<close> of the dependencies and \<open>a\<close> of the aliases: the first
  literal equal to a key is replaced, and every later literal equal to it is kept
  as the quoted string (a key of both maps is replaced at its first literal by the
  dependency and at its second by the alias).  \<open>rewrite_entries es\<close>, for a list of
  entries with repetitions: every literal uses up the first entry left for it, so
  that the first \<open>k\<close> literals equal to a location that has \<open>k\<close> entries are replaced
  and the later ones kept.
\<close>

fun rewrite_first ::
  "(string \<rightharpoonup> string) \<Rightarrow> (string \<rightharpoonup> string) \<Rightarrow> (string \<times> string) list \<Rightarrow> string \<Rightarrow> string" where
  "rewrite_first d a [] rest = rest"
| "rewrite_first d a ((t, l) # segs) rest =
     (case d l of
        Some new \<Rightarrow> t @ new @ rewrite_first (d(l := None)) a segs rest
      | None \<Rightarrow>
          (case a l of
             Some new \<Rightarrow> t @ new @ rewrite_first d (a(l := None)) segs rest
           | None \<Rightarrow> t @ quoted l @ rewrite_first d a segs rest))"

definition dependency_text :: "Contract list \<Rightarrow> Contract \<Rightarrow> string \<rightharpoonup> string" where
  "dependency_text os c =
     (\<lambda>l. map_option (\<lambda>dep. ''0x'' @ Address_String (target (os ! dep))) (dependencies c l))"

definition alias_text :: "Contract \<Rightarrow> string \<rightharpoonup> string" where
  "alias_text c = (\<lambda>l. map_option (\<lambda>tgt. ''0x'' @ Address_String tgt) (aliases c l))"

fun rewrite_entries ::
  "(string \<times> string) list \<Rightarrow> (string \<times> string) list \<Rightarrow> string \<Rightarrow> string" where
  "rewrite_entries es [] rest = rest"
| "rewrite_entries es ((t, l) # segs) rest =
     (case map_of es l of
        None \<Rightarrow> t @ quoted l @ rewrite_entries es segs rest
      | Some new \<Rightarrow> t @ new @ rewrite_entries (remove1 (l, new) es) segs rest)"

text \<open>Replacing the literal after the text \<open>u\<close> joins \<open>u\<close>, the replacement and the
  text that follows into one text between literals.\<close>

fun absorb ::
  "string \<Rightarrow> (string \<times> string) list \<Rightarrow> string \<Rightarrow> (string \<times> string) list \<times> string" where
  "absorb u [] rest = ([], u @ rest)"
| "absorb u ((t, l) # segs) rest = ((u @ t, l) # segs, rest)"

lemma layout_append: "layout (pre @ segs) rest = layout pre (layout segs rest)"
  by (induction pre) auto

lemma layout_rest: "layout segs (a @ b) = layout segs a @ b"
  by (induction segs) auto

lemma strings_Index_skip:
  "quote_free u \<Longrightarrow>
     strings_Index (u @ s) (quoted k) = map_option (\<lambda>i. length u + i) (strings_Index s (quoted k))"
proof (induction u)
  case Nil
  show ?case by (simp add: option.map_ident)
next
  case (Cons c u)
  then have "c \<noteq> CHR 0x22" and u: "quote_free u" by (auto simp: quote_free_def)
  then have "\<not> prefix (quoted k) (c # u @ s)" by (auto simp: quoted_def)
  with Cons.IH [OF u] show ?case by (simp add: option.map_comp comp_def)
qed

lemma strings_Index_here: "strings_Index (quoted k @ s) (quoted k) = Some 0"
  by (simp add: quoted_def)

lemma quote_free_prefix:
  assumes "quote_free a" "quote_free b" "prefix (a @ [CHR 0x22]) (b @ CHR 0x22 # s)"
  shows "a = b"
  using assms
proof (induction a arbitrary: b)
  case Nil
  then show ?case by (cases b) (auto simp: quote_free_def)
next
  case (Cons x a)
  then show ?case by (cases b) (auto simp: quote_free_def)
qed

lemma strings_Index_literal:
  assumes k: "quote_free k" and l: "quote_free l" and ne: "l \<noteq> k"
    and np: "\<not> prefix (k @ [CHR 0x22]) s"
  shows "strings_Index (quoted l @ s) (quoted k) =
     map_option (\<lambda>i. length (quoted l) + i) (strings_Index s (quoted k))"
proof -
  have 1: "\<not> prefix (quoted k) (quoted l @ s)"
  proof
    assume "prefix (quoted k) (quoted l @ s)"
    then have "prefix (k @ [CHR 0x22]) (l @ CHR 0x22 # s)" by (simp add: quoted_def)
    from quote_free_prefix [OF k l this] ne show False by simp
  qed
  have 2: "\<not> prefix (quoted k) (CHR 0x22 # s)"
    using np by (simp add: quoted_def)
  have "strings_Index (quoted l @ s) (quoted k)
      = map_option Suc (strings_Index (l @ CHR 0x22 # s) (quoted k))"
    using 1 by (simp add: quoted_def)
  also have "strings_Index (l @ CHR 0x22 # s) (quoted k)
      = map_option (\<lambda>i. length l + i) (strings_Index (CHR 0x22 # s) (quoted k))"
    by (rule strings_Index_skip [OF l])
  also have "strings_Index (CHR 0x22 # s) (quoted k) = map_option Suc (strings_Index s (quoted k))"
    using 2 by simp
  finally show ?thesis
    by (simp add: option.map_comp comp_def quoted_def)
qed

lemma layout_no_prefix:
  assumes "quote_free k" "\<forall>(t, l)\<in>set segs. quote_free t \<and> t \<noteq> k" "quote_free rest"
  shows "\<not> prefix (k @ [CHR 0x22]) (layout segs rest)"
proof (cases segs)
  case Nil
  show ?thesis
  proof
    assume "prefix (k @ [CHR 0x22]) (layout segs rest)"
    then have "CHR 0x22 \<in> set rest" using Nil by (auto simp: prefix_def)
    with assms(3) show False by (simp add: quote_free_def)
  qed
next
  case (Cons a segs')
  obtain t l where a: "a = (t, l)" by (cases a)
  with Cons assms(2) have t: "quote_free t" "t \<noteq> k" by auto
  show ?thesis
  proof
    assume "prefix (k @ [CHR 0x22]) (layout segs rest)"
    then have "prefix (k @ [CHR 0x22]) (t @ CHR 0x22 # l @ CHR 0x22 # layout segs' rest)"
      using Cons a by (simp add: quoted_def)
    from quote_free_prefix [OF assms(1) t(1) this] t(2) show False by simp
  qed
qed

lemma layout_no_prefix':
  assumes "quote_free k" "quote_free t" "t \<noteq> k"
  shows "\<not> prefix (k @ [CHR 0x22]) (t @ quoted l @ s)"
proof
  assume "prefix (k @ [CHR 0x22]) (t @ quoted l @ s)"
  then have "prefix (k @ [CHR 0x22]) (t @ CHR 0x22 # l @ CHR 0x22 # s)"
    by (simp add: quoted_def)
  from quote_free_prefix [OF assms(1,2) this] assms(3) show False by simp
qed

lemma strings_Index_absent:
  assumes k: "quote_free k"
    and segs: "\<forall>(t, l)\<in>set segs. quote_free t \<and> quote_free l \<and> t \<noteq> k \<and> l \<noteq> k"
    and rest: "quote_free rest"
  shows "strings_Index (layout segs rest) (quoted k) = None"
  using segs
proof (induction segs)
  case Nil
  have "strings_Index (rest @ []) (quoted k) = map_option (\<lambda>i. length rest + i) (strings_Index [] (quoted k))"
    by (rule strings_Index_skip [OF rest])
  then show ?case by (simp add: quoted_def)
next
  case (Cons a segs)
  obtain t l where a: "a = (t, l)" by (cases a)
  with Cons.prems have t: "quote_free t" "quote_free l" "l \<noteq> k"
    and r: "\<forall>(t, l)\<in>set segs. quote_free t \<and> quote_free l \<and> t \<noteq> k \<and> l \<noteq> k"
    by auto
  from r have "\<forall>(t, l)\<in>set segs. quote_free t \<and> t \<noteq> k" by auto
  from layout_no_prefix [OF k this rest]
  have np: "\<not> prefix (k @ [CHR 0x22]) (layout segs rest)" .
  show ?case
    using Cons.IH [OF r] a
    by (simp add: strings_Index_skip [OF t(1)] strings_Index_literal [OF k t(2,3) np])
qed

lemma strings_Index_first:
  assumes k: "quote_free k"
    and pre: "\<forall>(t, l)\<in>set pre. quote_free t \<and> quote_free l \<and> t \<noteq> k \<and> l \<noteq> k"
    and t: "quote_free t" "t \<noteq> k"
  shows "strings_Index (layout pre (t @ quoted k @ s)) (quoted k) = Some (length (layout pre t))"
  using pre
proof (induction pre)
  case Nil
  show ?case
    by (simp add: strings_Index_skip [OF t(1)] strings_Index_here)
next
  case (Cons a pre)
  obtain t0 l0 where a: "a = (t0, l0)" by (cases a)
  with Cons.prems have t0: "quote_free t0" "quote_free l0" "l0 \<noteq> k"
    and r: "\<forall>(t, l)\<in>set pre. quote_free t \<and> quote_free l \<and> t \<noteq> k \<and> l \<noteq> k"
    by auto
  have np: "\<not> prefix (k @ [CHR 0x22]) (layout pre (t @ quoted k @ s))"
  proof (cases pre)
    case Nil
    with layout_no_prefix' [OF k t] show ?thesis by simp
  next
    case (Cons b pre')
    obtain t1 l1 where b: "b = (t1, l1)" by (cases b)
    with Cons r have "quote_free t1" "t1 \<noteq> k" by auto
    from layout_no_prefix' [OF k this] Cons b show ?thesis by simp
  qed
  show ?case
    using Cons.IH [OF r] a
    by (simp add: strings_Index_skip [OF t0(1)] strings_Index_literal [OF k t0(2,3) np])
qed

lemma layout_absorb:
  "layout (fst (absorb u segs rest)) (snd (absorb u segs rest)) = u @ layout segs rest"
  by (cases "(u, segs, rest)" rule: absorb.cases) simp_all

lemma rewrite_entries_absorb:
  "rewrite_entries es (fst (absorb u segs rest)) (snd (absorb u segs rest))
     = u @ rewrite_entries es segs rest"
  by (cases "(u, segs, rest)" rule: absorb.cases) (simp_all split: option.splits)

lemma rewrite_entries_absent:
  "k \<notin> snd ` set segs \<Longrightarrow>
     rewrite_entries ((k, new) # es) segs rest = rewrite_entries es segs rest"
proof (induction segs arbitrary: es)
  case Nil
  show ?case by simp
next
  case (Cons a segs)
  obtain t l where a: "a = (t, l)" by (cases a)
  with Cons.prems have ne: "l \<noteq> k" and r: "k \<notin> snd ` set segs" by auto
  show ?case
  proof (cases "map_of es l")
    case None
    with ne a Cons.IH [OF r, of es] show ?thesis by simp
  next
    case (Some n)
    with ne a Cons.IH [OF r, of "remove1 (l, n) es"] show ?thesis by simp
  qed
qed

lemma rewrite_entries_present:
  "k \<notin> snd ` set pre \<Longrightarrow>
     rewrite_entries ((k, new) # es) (pre @ (t, k) # post) rest
       = rewrite_entries es (pre @ fst (absorb (t @ new) post rest))
           (snd (absorb (t @ new) post rest))"
proof (induction pre arbitrary: es)
  case Nil
  show ?case by (simp add: rewrite_entries_absorb)
next
  case (Cons a pre)
  obtain t0 l0 where a: "a = (t0, l0)" by (cases a)
  with Cons.prems have ne: "l0 \<noteq> k" and r: "k \<notin> snd ` set pre" by auto
  show ?case
  proof (cases "map_of es l0")
    case None
    with ne a Cons.IH [OF r, of es] show ?thesis by simp
  next
    case (Some n)
    with ne a Cons.IH [OF r, of "remove1 (l0, n) es"] show ?thesis by simp
  qed
qed

lemma rewrite_first_occurrence_absent:
  assumes "quote_free k"
    and "\<forall>(t, l)\<in>set segs. quote_free t \<and> quote_free l \<and> t \<noteq> k \<and> l \<noteq> k"
    and "quote_free rest"
  shows "rewrite_first_occurrence (layout segs rest) (k, new) = layout segs rest"
  by (simp add: rewrite_first_occurrence_def strings_Index_absent [OF assms])

lemma rewrite_first_occurrence_present:
  assumes "quote_free k"
    and "\<forall>(t, l)\<in>set pre. quote_free t \<and> quote_free l \<and> t \<noteq> k \<and> l \<noteq> k"
    and "quote_free t" "t \<noteq> k"
  shows "rewrite_first_occurrence (layout (pre @ (t, k) # post) rest) (k, new)
     = layout (pre @ fst (absorb (t @ new) post rest)) (snd (absorb (t @ new) post rest))"
proof -
  let ?s = "layout post rest"
  have l: "layout (pre @ (t, k) # post) rest = layout pre t @ quoted k @ ?s"
    using layout_rest [of pre t "quoted k @ ?s"] by (simp add: layout_append)
  have i: "strings_Index (layout pre t @ quoted k @ ?s) (quoted k) = Some (length (layout pre t))"
    using strings_Index_first [OF assms, of ?s] layout_rest [of pre t "quoted k @ ?s"] by simp
  have "rewrite_first_occurrence (layout (pre @ (t, k) # post) rest) (k, new)
      = layout pre t @ new @ ?s"
    unfolding l by (simp add: rewrite_first_occurrence_def i)
  also have "\<dots> = layout pre ((t @ new) @ ?s)"
    using layout_rest [of pre t "new @ ?s"] by simp
  also have "\<dots> = layout (pre @ fst (absorb (t @ new) post rest)) (snd (absorb (t @ new) post rest))"
    by (simp only: layout_append layout_absorb)
  finally show ?thesis .
qed

lemma quote_free_append: "quote_free (a @ b) \<longleftrightarrow> quote_free a \<and> quote_free b"
  by (auto simp: quote_free_def)

lemma foldl_rewrite_first_occurrence:
  assumes "\<forall>(t, l)\<in>set segs. quote_free t \<and> quote_free l"
    and "quote_free rest"
    and "\<forall>(k, new)\<in>set es. quote_free k \<and> quote_free new \<and> k \<notin> fst ` set segs"
    and "\<forall>(k, new)\<in>set es. \<forall>(k', new')\<in>set es. \<not> sublist new' k"
  shows "foldl rewrite_first_occurrence (layout segs rest) es = rewrite_entries es segs rest"
  using assms
proof (induction es arbitrary: segs rest)
  case Nil
  show ?case by (induction segs) auto
next
  case (Cons e es)
  obtain k new where e: "e = (k, new)" by (cases e)
  from Cons.prems(3) e have k: "quote_free k" "quote_free new" "k \<notin> fst ` set segs" by auto
  from Cons.prems(3) have es3: "\<forall>(k, new)\<in>set es. quote_free k \<and> quote_free new \<and> k \<notin> fst ` set segs"
    by auto
  from Cons.prems(4) have es4: "\<forall>(k, new)\<in>set es. \<forall>(k', new')\<in>set es. \<not> sublist new' k"
    by auto
  from Cons.prems(4) e have nk: "\<forall>(k', new')\<in>set es. \<not> sublist new k'"
    by auto
  show ?case
  proof (cases "k \<in> snd ` set segs")
    case False
    with k(3) Cons.prems(1)
    have "\<forall>(t, l)\<in>set segs. quote_free t \<and> quote_free l \<and> t \<noteq> k \<and> l \<noteq> k"
      by force
    from rewrite_first_occurrence_absent [OF k(1) this Cons.prems(2), of new]
      Cons.IH [OF Cons.prems(1,2) es3 es4] rewrite_entries_absent [OF False, of new es rest]
    show ?thesis by (simp add: e)
  next
    case True
    then have "\<exists>x\<in>set segs. snd x = k" by auto
    from split_list_first_prop [OF this] obtain pre x post where
      sp: "segs = pre @ x # post" "snd x = k" "\<forall>y\<in>set pre. snd y \<noteq> k"
      by blast
    obtain t where x: "x = (t, k)" using sp(2) by (cases x) auto
    from sp(1) x k(3) Cons.prems(1) have t: "quote_free t" "t \<noteq> k" by force+
    from sp(1,3) k(3) Cons.prems(1)
    have pre: "\<forall>(t, l)\<in>set pre. quote_free t \<and> quote_free l \<and> t \<noteq> k \<and> l \<noteq> k"
      by force
    from sp(3) have kn: "k \<notin> snd ` set pre" by auto
    let ?segs = "pre @ fst (absorb (t @ new) post rest)"
    let ?rest = "snd (absorb (t @ new) post rest)"
    have step: "rewrite_first_occurrence (layout segs rest) (k, new) = layout ?segs ?rest"
      unfolding sp(1) x by (rule rewrite_first_occurrence_present [OF k(1) pre t])
    have q1: "\<forall>(t, l)\<in>set ?segs. quote_free t \<and> quote_free l"
      using Cons.prems(1) sp(1) x t(1) k(2)
      by (cases "(t @ new, post, rest)" rule: absorb.cases) (auto simp: quote_free_append)
    have q2: "quote_free ?rest"
      using Cons.prems(2) t(1) k(2)
      by (cases "(t @ new, post, rest)" rule: absorb.cases) (auto simp: quote_free_append)
    have sub: "\<And>k' a b. sublist new (a @ new @ b)"
      by (metis sublist_appendI)
    have q3: "\<forall>(k', new')\<in>set es. quote_free k' \<and> quote_free new' \<and> k' \<notin> fst ` set ?segs"
    proof (intro ballI, clarify)
      fix k' new' assume in_es: "(k', new') \<in> set es"
      with es3 have a: "quote_free k'" "quote_free new'" "k' \<notin> fst ` set segs" by auto
      from in_es nk have ns: "\<not> sublist new k'" by auto
      have "k' \<notin> fst ` set (fst (absorb (t @ new) post rest))"
      proof (cases post)
        case Nil
        then show ?thesis by simp
      next
        case (Cons b post')
        obtain t' l' where b: "b = (t', l')" by (cases b)
        have "k' \<noteq> (t @ new) @ t'"
          using ns sub [of t t'] by auto
        moreover have "k' \<notin> fst ` set post'"
          using a(3) sp(1) Cons by auto
        ultimately show ?thesis using Cons b by auto
      qed
      moreover have "k' \<notin> fst ` set pre" using a(3) sp(1) by auto
      ultimately show "quote_free k' \<and> quote_free new' \<and> k' \<notin> fst ` set ?segs"
        using a by auto
    qed
    from Cons.IH [OF q1 q2 q3 es4] step rewrite_entries_present [OF kn, of new es t post rest]
    show ?thesis by (simp add: e sp(1) x)
  qed
qed

lemma hexdigit_quote: "hexdigit n \<noteq> CHR 0x22"
proof -
  have "hexdigit n \<in> set ''0123456789abcdef''"
    unfolding hexdigit_def by (rule nth_mem) simp
  then show ?thesis by auto
qed

lemma quote_free_Address_String: "quote_free (Address_String a)"
  by (induction a)
     (simp_all add: quote_free_def Address_String_def hex_EncodeToString_def
        hexdigit_quote hexdigit_quote [THEN not_sym])

lemma quote_free_0x: "quote_free (CHR ''0'' # CHR ''x'' # s) \<longleftrightarrow> quote_free s"
  by (simp add: quote_free_def)

lemma strings_Replace_rewrite:
  "strings_Replace s (quoted k) new 1 = rewrite_first_occurrence s (k, new)"
  by (simp add: strings_Replace_first quoted_not_empty rewrite_first_occurrence_def
      split: option.splits)

lemma transpile_dependencies_fold:
  "set ds \<subseteq> dom deps \<Longrightarrow>
     transpile_dependencies os deps ds cd =
       foldl rewrite_first_occurrence cd
         (map (\<lambda>l. (l, ''0x'' @ Address_String (target (os ! the (deps l))))) ds)"
  by (induction ds arbitrary: cd) (auto simp: strings_Replace_rewrite)

lemma transpile_aliases_fold:
  "set ao \<subseteq> dom als \<Longrightarrow>
     transpile_aliases als ao cd =
       foldl rewrite_first_occurrence cd
         (map (\<lambda>l. (l, ''0x'' @ Address_String (the (als l)))) ao)"
  by (induction ao arbitrary: cd) (auto simp: strings_Replace_rewrite)

lemma TranspiledCode_fold:
  assumes "range_order ds (dependencies c)" "range_order ao (aliases c)"
  shows "TranspiledCode os ds ao c =
     foldl rewrite_first_occurrence (code c) (dependency_entries os c ds @ alias_entries c ao)"
  using assms
  by (simp add: TranspiledCode_def range_order_def transpile_dependencies_fold
      transpile_aliases_fold dependency_entries_def alias_entries_def)

lemma resolve_loop_rewrite:
  assumes "\<forall>imp\<in>set imps. map_index st (absolutePath codePath imp) \<noteq> []"
  shows "fst (resolve_loop r codePath st imps) =
     Inr (foldl rewrite_first_occurrence (r_code r) (import_entries st codePath imps))"
  using assms
  by (induction imps arbitrary: r)
     (simp_all add: Let_def replaceImport_def import_entries_def strings_Replace_rewrite)

lemma map_of_remove1_apply:
  "distinct (map fst es) \<Longrightarrow> map_of es l = Some n \<Longrightarrow>
     map_of (remove1 (l, n) es) x = (if x = l then None else map_of es x)"
proof (induction es)
  case Nil
  then show ?case by simp
next
  case (Cons e es)
  obtain k v where e: "e = (k, v)" by (cases e)
  show ?case
  proof (cases "k = l")
    case True
    with Cons.prems e have v: "v = n" and "l \<notin> fst ` set es" by auto
    then have "map_of es l = None" by (simp add: map_of_eq_None_iff)
    with True e v show ?thesis by simp
  next
    case False
    with Cons e show ?thesis by auto
  qed
qed

lemma map_of_remove1:
  "distinct (map fst es) \<Longrightarrow> map_of es l = Some n \<Longrightarrow>
     map_of (remove1 (l, n) es) = (map_of es)(l := None)"
  by (rule ext) (simp add: map_of_remove1_apply)

lemma distinct_fst_remove1:
  "distinct (map fst es) \<Longrightarrow> distinct (map fst (remove1 x es))"
proof (induction es)
  case Nil
  then show ?case by simp
next
  case (Cons e es)
  have "fst ` set (remove1 x es) \<subseteq> fst ` set es"
    using set_remove1_subset [of x es] by auto
  with Cons show ?case by auto
qed

lemma rewrite_entries_maps:
  "distinct (map fst ed) \<Longrightarrow> distinct (map fst ea) \<Longrightarrow>
     rewrite_entries (ed @ ea) segs rest = rewrite_first (map_of ed) (map_of ea) segs rest"
proof (induction segs arbitrary: ed ea)
  case Nil
  show ?case by simp
next
  case (Cons a segs)
  obtain t l where a: "a = (t, l)" by (cases a)
  show ?case
  proof (cases "map_of ed l")
    case (Some n)
    then have m: "(l, n) \<in> set ed" by (rule map_of_SomeD)
    then have r: "remove1 (l, n) (ed @ ea) = remove1 (l, n) ed @ ea"
      by (simp add: remove1_append)
    have both: "map_of (ed @ ea) l = Some n" using Some by simp
    have "rewrite_entries (remove1 (l, n) ed @ ea) segs rest
        = rewrite_first (map_of (remove1 (l, n) ed)) (map_of ea) segs rest"
      by (rule Cons.IH [OF distinct_fst_remove1 [OF Cons.prems(1)] Cons.prems(2)])
    also have "map_of (remove1 (l, n) ed) = (map_of ed)(l := None)"
      by (rule map_of_remove1 [OF Cons.prems(1) Some])
    finally have ih: "rewrite_entries (remove1 (l, n) ed @ ea) segs rest
        = rewrite_first ((map_of ed)(l := None)) (map_of ea) segs rest" .
    have "rewrite_entries (ed @ ea) (a # segs) rest
        = t @ n @ rewrite_entries (remove1 (l, n) ed @ ea) segs rest"
      unfolding a rewrite_entries.simps both by (simp add: r)
    also have "\<dots> = rewrite_first (map_of ed) (map_of ea) (a # segs) rest"
      unfolding a rewrite_first.simps Some ih by simp
    finally show ?thesis .
  next
    case None
    then have nm: "\<And>n. (l, n) \<notin> set ed"
      by (metis map_of_eq_None_iff fst_conv image_eqI)
    show ?thesis
    proof (cases "map_of ea l")
      case None
      have both: "map_of (ed @ ea) l = None" using None \<open>map_of ed l = None\<close> by simp
      have "rewrite_entries (ed @ ea) (a # segs) rest
          = t @ quoted l @ rewrite_entries (ed @ ea) segs rest"
        unfolding a rewrite_entries.simps both by simp
      also have "\<dots> = t @ quoted l @ rewrite_first (map_of ed) (map_of ea) segs rest"
        by (simp only: Cons.IH [OF Cons.prems])
      also have "\<dots> = rewrite_first (map_of ed) (map_of ea) (a # segs) rest"
        unfolding a rewrite_first.simps None \<open>map_of ed l = None\<close> by simp
      finally show ?thesis .
    next
      case (Some n)
      have r: "remove1 (l, n) (ed @ ea) = ed @ remove1 (l, n) ea"
        using nm by (simp add: remove1_append)
      have both: "map_of (ed @ ea) l = Some n" using Some None by (simp add: map_add_def)
      have "rewrite_entries (ed @ remove1 (l, n) ea) segs rest
          = rewrite_first (map_of ed) (map_of (remove1 (l, n) ea)) segs rest"
        by (rule Cons.IH [OF Cons.prems(1) distinct_fst_remove1 [OF Cons.prems(2)]])
      also have "map_of (remove1 (l, n) ea) = (map_of ea)(l := None)"
        by (rule map_of_remove1 [OF Cons.prems(2) Some])
      finally have ih: "rewrite_entries (ed @ remove1 (l, n) ea) segs rest
          = rewrite_first (map_of ed) ((map_of ea)(l := None)) segs rest" .
      have "rewrite_entries (ed @ ea) (a # segs) rest
          = t @ n @ rewrite_entries (ed @ remove1 (l, n) ea) segs rest"
        unfolding a rewrite_entries.simps both by (simp add: r)
      also have "\<dots> = rewrite_first (map_of ed) (map_of ea) (a # segs) rest"
        unfolding a rewrite_first.simps Some None ih by simp
      finally show ?thesis .
    qed
  qed
qed

lemma map_of_dependency_entries:
  "range_order ds (dependencies c) \<Longrightarrow> map_of (dependency_entries os c ds) = dependency_text os c"
  by (auto simp: dependency_entries_def dependency_text_def range_order_def fun_eq_iff
      map_of_map_restrict restrict_map_def domIff)

lemma map_of_alias_entries:
  "range_order ao (aliases c) \<Longrightarrow> map_of (alias_entries c ao) = alias_text c"
  by (auto simp: alias_entries_def alias_text_def range_order_def fun_eq_iff
      map_of_map_restrict restrict_map_def domIff)

lemma ran_update_quote_free:
  "\<forall>v\<in>ran st. quote_free v \<Longrightarrow> quote_free a \<Longrightarrow> \<forall>v\<in>ran (st(k \<mapsto> a)). quote_free v"
  by (auto simp: ran_def split: if_splits)

lemma sourceTarget_contracts_quote_free:
  "\<forall>v\<in>ran st. quote_free v \<Longrightarrow> \<forall>v\<in>ran (sourceTarget_contracts cs st). quote_free v"
proof (induction cs arbitrary: st)
  case Nil
  then show ?case by simp
next
  case (Cons c cs)
  have "\<forall>v\<in>ran (st(path_Clean (Source c) \<mapsto> Address_String (Target c))). quote_free v"
    by (rule ran_update_quote_free [OF Cons.prems quote_free_Address_String])
  then have "\<forall>v\<in>ran (sourceTarget_contracts cs
      (st(path_Clean (Source c) \<mapsto> Address_String (Target c)))). quote_free v"
    by (rule Cons.IH)
  then show ?case by (simp only: sourceTarget_contracts.simps)
qed

lemma sourceTarget_aliases_quote_free:
  "\<forall>v\<in>ran st. quote_free v \<Longrightarrow> \<forall>v\<in>ran (sourceTarget_aliases als ao st). quote_free v"
proof (induction ao arbitrary: st)
  case Nil
  then show ?case by simp
next
  case (Cons src ao)
  show ?case
  proof (cases "als src")
    case None
    have "\<forall>v\<in>ran (sourceTarget_aliases als ao st). quote_free v"
      by (rule Cons.IH [OF Cons.prems])
    then show ?thesis by (simp only: sourceTarget_aliases.simps None option.case)
  next
    case (Some tgt)
    have "\<forall>v\<in>ran (st(path_Clean src \<mapsto> Address_String (HexToAddress tgt))). quote_free v"
      by (rule ran_update_quote_free [OF Cons.prems quote_free_Address_String])
    then have "\<forall>v\<in>ran (sourceTarget_aliases als ao
        (st(path_Clean src \<mapsto> Address_String (HexToAddress tgt)))). quote_free v"
      by (rule Cons.IH)
    then show ?thesis by (simp only: sourceTarget_aliases.simps Some option.case)
  qed
qed

lemma getSourceTarget_quote_free: "quote_free (map_index (getSourceTarget cs als ao) k)"
proof -
  have "\<forall>v\<in>ran (getSourceTarget cs als ao). quote_free v"
    unfolding getSourceTarget_def
    by (rule sourceTarget_aliases_quote_free, rule sourceTarget_contracts_quote_free) simp
  then show ?thesis
    by (cases "getSourceTarget cs als ao k") (auto simp: map_index_def quote_free_def ran_def)
qed

text \<open>
  Claim C4, amended.  Deployment mode: \<open>TranspiledCode\<close> is one first-occurrence
  replacement per key of \<open>dependencies\<close>, in the order of the keys, followed by one
  per key of \<open>aliases\<close>, each on the text rewritten so far, whatever the text is.
  When the code is a sequence of quoted literals between texts that hold no double
  quote, and every key is distinguishable in it, the output is the code with, for
  each key, the first literal equal to it replaced by \<open>0x\<close> and the address and
  every later literal equal to it kept as the quoted string; it does not depend on
  the order of the keys.  Ad-hoc mode: \<open>ResolveImports\<close>, when every extracted
  import resolves, is one first-occurrence replacement per entry of the extracted
  import list, duplicates included, each on the text rewritten so far.  On a text
  of the same kind, with every extracted import distinguishable in it, a literal
  is replaced when fewer literals equal to it precede it than the list has
  entries for it, and kept as the quoted string otherwise.
\<close>

theorem C4_first_occurrence_per_entry:
  "(range_order ds (dependencies c) \<longrightarrow> range_order ao (aliases c) \<longrightarrow>
      TranspiledCode os ds ao c =
        foldl rewrite_first_occurrence (code c)
          (dependency_entries os c ds @ alias_entries c ao))
   \<and> (range_order ds (dependencies c) \<longrightarrow> range_order ao (aliases c) \<longrightarrow>
      code c = layout segs rest \<longrightarrow> quoting segs rest \<longrightarrow>
      (\<forall>k\<in>set ds \<union> set ao.
         distinguishable segs (map snd (dependency_entries os c ds @ alias_entries c ao)) k) \<longrightarrow>
      TranspiledCode os ds ao c = rewrite_first (dependency_text os c) (alias_text c) segs rest)
   \<and> ((\<forall>imp\<in>set (getFileImports (r_program r)).
          map_index (getSourceTarget cs als so) (absolutePath codePath imp) \<noteq> []) \<longrightarrow>
      fst (ResolveImports so r codePath cs als) =
        Inr (foldl rewrite_first_occurrence (r_code r)
               (import_entries (getSourceTarget cs als so) codePath
                  (getFileImports (r_program r)))))
   \<and> ((\<forall>imp\<in>set (getFileImports (r_program r)).
          map_index (getSourceTarget cs als so) (absolutePath codePath imp) \<noteq> []) \<longrightarrow>
      r_code r = layout segs' rest' \<longrightarrow> quoting segs' rest' \<longrightarrow>
      (\<forall>k\<in>set (getFileImports (r_program r)).
         distinguishable segs'
           (map snd (import_entries (getSourceTarget cs als so) codePath
              (getFileImports (r_program r)))) k) \<longrightarrow>
      fst (ResolveImports so r codePath cs als) =
        Inr (rewrite_entries
               (import_entries (getSourceTarget cs als so) codePath
                  (getFileImports (r_program r))) segs' rest'))"
proof (intro conjI impI)
  assume "range_order ds (dependencies c)" "range_order ao (aliases c)"
  then show "TranspiledCode os ds ao c =
        foldl rewrite_first_occurrence (code c)
          (dependency_entries os c ds @ alias_entries c ao)"
    by (rule TranspiledCode_fold)
next
  let ?ed = "dependency_entries os c ds" and ?ea = "alias_entries c ao"
  assume ro: "range_order ds (dependencies c)" "range_order ao (aliases c)"
    and cd: "code c = layout segs rest" and q: "quoting segs rest"
    and d: "\<forall>k\<in>set ds \<union> set ao. distinguishable segs (map snd (?ed @ ?ea)) k"
  have "map fst (?ed @ ?ea) = ds @ ao"
    by (simp add: dependency_entries_def alias_entries_def comp_def)
  then have keys: "fst ` set (?ed @ ?ea) = set ds \<union> set ao"
    by (metis set_map set_append)
  have news: "\<forall>(k, new)\<in>set (?ed @ ?ea). quote_free new"
    by (auto simp: dependency_entries_def alias_entries_def quote_free_0x
        quote_free_Address_String)
  have 1: "\<forall>(t, l)\<in>set segs. quote_free t \<and> quote_free l" and 2: "quote_free rest"
    using q by (simp_all add: quoting_def)
  have 3: "\<forall>(k, new)\<in>set (?ed @ ?ea). quote_free k \<and> quote_free new \<and> k \<notin> fst ` set segs"
  proof (intro ballI, clarify)
    fix k new assume e: "(k, new) \<in> set (?ed @ ?ea)"
    then have "k \<in> set ds \<union> set ao" using keys by force
    with d have "distinguishable segs (map snd (?ed @ ?ea)) k" by blast
    with e news show "quote_free k \<and> quote_free new \<and> k \<notin> fst ` set segs"
      by (auto simp: distinguishable_def)
  qed
  have 4: "\<forall>(k, new)\<in>set (?ed @ ?ea). \<forall>(k', new')\<in>set (?ed @ ?ea). \<not> sublist new' k"
  proof (intro ballI, clarify)
    fix k new k' new'
    assume e: "(k, new) \<in> set (?ed @ ?ea)" and e': "(k', new') \<in> set (?ed @ ?ea)"
      and s: "sublist new' k"
    from e have "k \<in> set ds \<union> set ao" using keys by force
    with d have "distinguishable segs (map snd (?ed @ ?ea)) k" by blast
    moreover from e' have "new' \<in> set (map snd (?ed @ ?ea))" by force
    ultimately show False using s by (auto simp: distinguishable_def)
  qed
  have dd: "distinct (map fst ?ed)" "distinct (map fst ?ea)"
    using ro by (simp_all add: dependency_entries_def alias_entries_def range_order_def comp_def)
  have "TranspiledCode os ds ao c = foldl rewrite_first_occurrence (layout segs rest) (?ed @ ?ea)"
    using TranspiledCode_fold [OF ro, of os] cd by simp
  also have "\<dots> = rewrite_entries (?ed @ ?ea) segs rest"
    by (rule foldl_rewrite_first_occurrence [OF 1 2 3 4])
  also have "\<dots> = rewrite_first (map_of ?ed) (map_of ?ea) segs rest"
    by (rule rewrite_entries_maps [OF dd])
  finally show "TranspiledCode os ds ao c
      = rewrite_first (dependency_text os c) (alias_text c) segs rest"
    by (simp only: map_of_dependency_entries [OF ro(1)] map_of_alias_entries [OF ro(2)])
next
  assume "\<forall>imp\<in>set (getFileImports (r_program r)).
      map_index (getSourceTarget cs als so) (absolutePath codePath imp) \<noteq> []"
  then show "fst (ResolveImports so r codePath cs als) =
        Inr (foldl rewrite_first_occurrence (r_code r)
               (import_entries (getSourceTarget cs als so) codePath
                  (getFileImports (r_program r))))"
    unfolding ResolveImports_def by (rule resolve_loop_rewrite)
next
  let ?st = "getSourceTarget cs als so" and ?imps = "getFileImports (r_program r)"
  let ?es = "import_entries ?st codePath ?imps"
  assume res: "\<forall>imp\<in>set ?imps. map_index ?st (absolutePath codePath imp) \<noteq> []"
    and cd: "r_code r = layout segs' rest'" and q: "quoting segs' rest'"
    and d: "\<forall>k\<in>set ?imps. distinguishable segs' (map snd ?es) k"
  have "map fst ?es = ?imps"
    by (simp add: import_entries_def comp_def)
  then have keys: "fst ` set ?es = set ?imps"
    by (metis set_map)
  have news: "\<forall>(k, new)\<in>set ?es. quote_free new"
    by (auto simp: import_entries_def quote_free_0x getSourceTarget_quote_free)
  have 1: "\<forall>(t, l)\<in>set segs'. quote_free t \<and> quote_free l" and 2: "quote_free rest'"
    using q by (simp_all add: quoting_def)
  have 3: "\<forall>(k, new)\<in>set ?es. quote_free k \<and> quote_free new \<and> k \<notin> fst ` set segs'"
  proof (intro ballI, clarify)
    fix k new assume e: "(k, new) \<in> set ?es"
    then have "k \<in> set ?imps" using keys by force
    with d have "distinguishable segs' (map snd ?es) k" by blast
    with e news show "quote_free k \<and> quote_free new \<and> k \<notin> fst ` set segs'"
      by (auto simp: distinguishable_def)
  qed
  have 4: "\<forall>(k, new)\<in>set ?es. \<forall>(k', new')\<in>set ?es. \<not> sublist new' k"
  proof (intro ballI, clarify)
    fix k new k' new'
    assume e: "(k, new) \<in> set ?es" and e': "(k', new') \<in> set ?es" and s: "sublist new' k"
    from e have "k \<in> set ?imps" using keys by force
    with d have "distinguishable segs' (map snd ?es) k" by blast
    moreover from e' have "new' \<in> set (map snd ?es)" by force
    ultimately show False using s by (auto simp: distinguishable_def)
  qed
  have "fst (ResolveImports so r codePath cs als)
      = Inr (foldl rewrite_first_occurrence (layout segs' rest') ?es)"
    unfolding ResolveImports_def using resolve_loop_rewrite [OF res, of r] cd by simp
  also have "foldl rewrite_first_occurrence (layout segs' rest') ?es
      = rewrite_entries ?es segs' rest'"
    by (rule foldl_rewrite_first_occurrence [OF 1 2 3 4])
  finally show "fst (ResolveImports so r codePath cs als) = Inr (rewrite_entries ?es segs' rest')" .
qed

text \<open>
  Claim C4, as stated (in both modes every occurrence after the first remains the
  quoted string), fails in ad-hoc mode: for code with two imports whose extracted
  import is the same, both occurrences of the quoted string are rewritten.
\<close>

definition code_ZZ :: string where
  "code_ZZ = ''import X from '' @ quoted ''0000000000000000''
     @ '' import Y from '' @ quoted ''0000000000000000''"

definition example_twice :: Resolver where
  "example_twice =
     \<lparr>r_code = code_ZZ,
      r_program = [StringLocation ''0000000000000000'', StringLocation ''0000000000000000'']\<rparr>"

theorem C4_adhoc_second_occurrence_counterexample:
  "r_code example_twice = ''import X from '' @ quoted ''0000000000000000''
       @ '' import Y from '' @ quoted ''0000000000000000''
   \<and> fst (ResolveImports [] example_twice ''tx.cdc'' example_config Map.empty)
       = Inr ''import X from 0x0000000000000005 import Y from 0x0000000000000005''
   \<and> \<not> sublist (quoted ''0000000000000000'')
         ''import X from 0x0000000000000005 import Y from 0x0000000000000005''"
  by code_simp

text \<open>A contract that imports \<open>"./A.cdc"\<close> twice and \<open>"./B.cdc"\<close> once, the first
  resolved to a contract and the second to an alias; and a resolver whose code
  holds the literal \<open>"0000000000000000"\<close> three times and whose extracted imports
  hold it twice.\<close>

definition code_Dup :: string where
  "code_Dup = ''import A from '' @ quoted ''./A.cdc''
     @ '' import B from '' @ quoted ''./B.cdc''
     @ '' import A2 from '' @ quoted ''./A.cdc'' @ '' pub contract Dup {}''"

definition example_dup :: Contract where
  "example_dup =
     \<lparr>index = 3, name = ''Dup'', source = ''Dup.cdc'', target = HexToAddress ''06'',
      code = code_Dup,
      program = [StringLocation ''./A.cdc'', StringLocation ''./B.cdc'',
                 StringLocation ''./A.cdc''],
      dependencies = [''./A.cdc'' \<mapsto> 0], aliases = [''./B.cdc'' \<mapsto> HexToAddress ''04'']\<rparr>"

definition segments_Dup :: "(string \<times> string) list" where
  "segments_Dup =
     [(''import A from '', ''./A.cdc''), ('' import B from '', ''./B.cdc''),
      ('' import A2 from '', ''./A.cdc'')]"

definition code_ZZZ :: string where
  "code_ZZZ = ''import X from '' @ quoted ''0000000000000000''
     @ '' import Y from '' @ quoted ''0000000000000000''
     @ '' let a = '' @ quoted ''0000000000000000''"

definition example_thrice :: Resolver where
  "example_thrice =
     \<lparr>r_code = code_ZZZ,
      r_program = [StringLocation ''0000000000000000'', StringLocation ''0000000000000000'']\<rparr>"

definition segments_ZZZ :: "(string \<times> string) list" where
  "segments_ZZZ =
     [(''import X from '', ''0000000000000000''), ('' import Y from '', ''0000000000000000''),
      ('' let a = '', ''0000000000000000'')]"

theorem C4_first_occurrence_per_entry_witness:
  "TranspiledCode (objs example_set) [''./A.cdc''] [''./B.cdc''] example_dup
     = ''import A from 0x0000000000000001 import B from 0x0000000000000004 import A2 from ''
         @ quoted ''./A.cdc'' @ '' pub contract Dup {}''
   \<and> fst (ResolveImports [] example_thrice ''tx.cdc'' example_config Map.empty)
     = Inr (''import X from 0x0000000000000005 import Y from 0x0000000000000005 let a = ''
         @ quoted ''0000000000000000'')"
proof -
  have ro: "range_order [''./A.cdc''] (dependencies example_dup)"
    "range_order [''./B.cdc''] (aliases example_dup)"
    by (simp_all add: range_order_def example_dup_def)
  have cd: "code example_dup = layout segments_Dup '' pub contract Dup {}''"
    by code_simp
  have q: "quoting segments_Dup '' pub contract Dup {}''"
    by code_simp
  have ed: "dependency_entries (objs example_set) example_dup [''./A.cdc'']
        @ alias_entries example_dup [''./B.cdc'']
      = [(''./A.cdc'', ''0x0000000000000001''), (''./B.cdc'', ''0x0000000000000004'')]"
    by code_simp
  have d: "\<forall>k\<in>set [''./A.cdc''] \<union> set [''./B.cdc''].
      distinguishable segments_Dup
        (map snd (dependency_entries (objs example_set) example_dup [''./A.cdc'']
           @ alias_entries example_dup [''./B.cdc''])) k"
    unfolding ed by code_simp
  have out: "rewrite_first (dependency_text (objs example_set) example_dup)
        (alias_text example_dup) segments_Dup '' pub contract Dup {}''
      = ''import A from 0x0000000000000001 import B from 0x0000000000000004 import A2 from ''
         @ quoted ''./A.cdc'' @ '' pub contract Dup {}''"
    by code_simp
  have fold1: "foldl rewrite_first_occurrence (code example_dup)
        (dependency_entries (objs example_set) example_dup [''./A.cdc'']
           @ alias_entries example_dup [''./B.cdc''])
      = ''import A from 0x0000000000000001 import B from 0x0000000000000004 import A2 from ''
         @ quoted ''./A.cdc'' @ '' pub contract Dup {}''"
    by code_simp
  have zero: "getFileImports (r_program example_thrice)
      = [''0000000000000000'', ''0000000000000000'']"
    by (simp add: getFileImports_zero example_thrice_def file_locations_def)
  have es: "import_entries (getSourceTarget example_config Map.empty []) ''tx.cdc''
        [''0000000000000000'', ''0000000000000000'']
      = [(''0000000000000000'', ''0x0000000000000005''),
         (''0000000000000000'', ''0x0000000000000005'')]"
    by code_simp
  have res: "\<forall>imp\<in>set (getFileImports (r_program example_thrice)).
      map_index (getSourceTarget example_config Map.empty []) (absolutePath ''tx.cdc'' imp) \<noteq> []"
    unfolding zero by code_simp
  have cd': "r_code example_thrice = layout segments_ZZZ []"
    by code_simp
  have q': "quoting segments_ZZZ []"
    by code_simp
  have d': "\<forall>k\<in>set (getFileImports (r_program example_thrice)).
      distinguishable segments_ZZZ
        (map snd (import_entries (getSourceTarget example_config Map.empty []) ''tx.cdc''
           (getFileImports (r_program example_thrice)))) k"
    unfolding zero es by code_simp
  have out': "rewrite_entries
        (import_entries (getSourceTarget example_config Map.empty []) ''tx.cdc''
           (getFileImports (r_program example_thrice))) segments_ZZZ []
      = ''import X from 0x0000000000000005 import Y from 0x0000000000000005 let a = ''
         @ quoted ''0000000000000000''"
    unfolding zero es by code_simp
  note inst = C4_first_occurrence_per_entry [of "[''./A.cdc'']" example_dup "[''./B.cdc'']"
      "objs example_set" segments_Dup "'' pub contract Dup {}''" example_thrice example_config
      Map.empty "[]" "''tx.cdc''" segments_ZZZ "[]"]
  from inst ro cd q d out
  have 1: "TranspiledCode (objs example_set) [''./A.cdc''] [''./B.cdc''] example_dup
     = ''import A from 0x0000000000000001 import B from 0x0000000000000004 import A2 from ''
         @ quoted ''./A.cdc'' @ '' pub contract Dup {}''"
    by metis
  from inst res cd' q' d' out'
  have 2: "fst (ResolveImports [] example_thrice ''tx.cdc'' example_config Map.empty)
     = Inr (''import X from 0x0000000000000005 import Y from 0x0000000000000005 let a = ''
         @ quoted ''0000000000000000'')"
    by metis
  from 1 2 show ?thesis by (rule conjI)
qed

section \<open>Correctness of the strongly connected components\<close>

text \<open>
  The edges of a graph given by its successor lists, the nodes visited so far, and
  the invariant of the tables of \<open>tarjan\<close>: the stack holds visited nodes in
  decreasing order of their index, and the components emitted so far hold exactly
  the visited nodes that are not on the stack, each once.  \<open>tj_ext U t t'\<close> relates a
  state to a later one: indices are kept, low links are kept outside \<open>U\<close>, and the
  stack and the list of components have only grown.
\<close>

definition edges :: "(int \<Rightarrow> int list) \<Rightarrow> (int \<times> int) set" where
  "edges succ = {(v, w). w \<in> set (succ v)}"

definition visited :: "tarjan \<Rightarrow> int set" where
  "visited t = {v. indexTable t v \<noteq> 0}"

definition tj_inv :: "int set \<Rightarrow> tarjan \<Rightarrow> bool" where
  "tj_inv V t \<longleftrightarrow>
     onStack t = set (stack t) \<and>
     sorted_wrt (>) (map (indexTable t) (stack t)) \<and>
     (\<forall>x\<in>set (stack t). indexTable t x \<noteq> 0 \<and> lowLink t x \<le> indexTable t x) \<and>
     (\<forall>x. indexTable t x \<le> t_index t) \<and>
     visited t \<subseteq> V \<and>
     set (concat (sccs t)) = visited t - set (stack t) \<and>
     distinct (concat (sccs t))"

definition tj_ext :: "int set \<Rightarrow> tarjan \<Rightarrow> tarjan \<Rightarrow> bool" where
  "tj_ext U t t' \<longleftrightarrow>
     (\<forall>x. indexTable t x \<noteq> 0 \<longrightarrow> indexTable t' x = indexTable t x) \<and>
     (\<forall>x. indexTable t x \<noteq> 0 \<longrightarrow> x \<notin> U \<longrightarrow> lowLink t' x = lowLink t x) \<and>
     (\<forall>x\<in>U. lowLink t' x \<le> lowLink t x) \<and>
     (\<exists>new. stack t' = new @ stack t \<and> (\<forall>x\<in>set new. indexTable t x = 0)) \<and>
     (\<exists>more. sccs t' = sccs t @ more) \<and>
     t_index t \<le> t_index t'"

lemma tj_ext_refl: "tj_ext U t t"
  by (simp add: tj_ext_def)

lemma tj_ext_trans:
  assumes "tj_ext U t t'" and "tj_ext U' t' t''"
    and "\<forall>x. indexTable t x \<noteq> 0 \<longrightarrow> x \<in> U \<union> U' \<longrightarrow> x \<in> W"
    and "\<forall>x\<in>W. indexTable t x \<noteq> 0"
  shows "tj_ext W t t''"
proof -
  from assms(1) obtain new more where
    a: "\<And>x. indexTable t x \<noteq> 0 \<Longrightarrow> indexTable t' x = indexTable t x"
      "\<And>x. indexTable t x \<noteq> 0 \<Longrightarrow> x \<notin> U \<Longrightarrow> lowLink t' x = lowLink t x"
      "\<And>x. x \<in> U \<Longrightarrow> lowLink t' x \<le> lowLink t x"
      "stack t' = new @ stack t" "\<And>x. x \<in> set new \<Longrightarrow> indexTable t x = 0"
      "sccs t' = sccs t @ more" "t_index t \<le> t_index t'"
    unfolding tj_ext_def by blast
  from assms(2) obtain new' more' where
    b: "\<And>x. indexTable t' x \<noteq> 0 \<Longrightarrow> indexTable t'' x = indexTable t' x"
      "\<And>x. indexTable t' x \<noteq> 0 \<Longrightarrow> x \<notin> U' \<Longrightarrow> lowLink t'' x = lowLink t' x"
      "\<And>x. x \<in> U' \<Longrightarrow> lowLink t'' x \<le> lowLink t' x"
      "stack t'' = new' @ stack t'" "\<And>x. x \<in> set new' \<Longrightarrow> indexTable t' x = 0"
      "sccs t'' = sccs t' @ more'" "t_index t' \<le> t_index t''"
    unfolding tj_ext_def by blast
  have 1: "\<forall>x. indexTable t x \<noteq> 0 \<longrightarrow> indexTable t'' x = indexTable t x"
    using a(1) b(1) by simp
  have 2: "\<forall>x. indexTable t x \<noteq> 0 \<longrightarrow> x \<notin> W \<longrightarrow> lowLink t'' x = lowLink t x"
  proof (intro allI impI)
    fix x assume v: "indexTable t x \<noteq> 0" and "x \<notin> W"
    with assms(3) have "x \<notin> U" "x \<notin> U'" by auto
    with v a(1) [OF v] a(2) [of x] b(2) [of x] show "lowLink t'' x = lowLink t x" by simp
  qed
  have 3: "\<forall>x\<in>W. lowLink t'' x \<le> lowLink t x"
  proof
    fix x assume x: "x \<in> W"
    with assms(4) have v: "indexTable t x \<noteq> 0" by blast
    then have v': "indexTable t' x \<noteq> 0" using a(1) by simp
    have "lowLink t' x \<le> lowLink t x"
      using a(2) [OF v] a(3) [of x] by (cases "x \<in> U") auto
    moreover have "lowLink t'' x \<le> lowLink t' x"
      using b(2) [OF v'] b(3) [of x] by (cases "x \<in> U'") auto
    ultimately show "lowLink t'' x \<le> lowLink t x" by simp
  qed
  have 4: "\<exists>n. stack t'' = n @ stack t \<and> (\<forall>x\<in>set n. indexTable t x = 0)"
  proof (intro exI conjI ballI)
    show "stack t'' = (new' @ new) @ stack t" by (simp add: a(4) b(4))
    fix x assume "x \<in> set (new' @ new)"
    then consider "x \<in> set new'" | "x \<in> set new" by auto
    then show "indexTable t x = 0"
    proof cases
      case 1
      then have "indexTable t' x = 0" by (rule b(5))
      with a(1) [of x] show ?thesis by (cases "indexTable t x = 0") auto
    next
      case 2
      then show ?thesis by (rule a(5))
    qed
  qed
  have 5: "\<exists>m. sccs t'' = sccs t @ m" by (simp add: a(6) b(6))
  from 1 2 3 4 5 a(7) b(7) show ?thesis
    unfolding tj_ext_def by simp
qed

lemma sorted_wrt_gt_distinct: "sorted_wrt (>) (xs :: nat list) \<Longrightarrow> distinct xs"
  by (induction xs) auto

lemma tj_inv_distinct_stack: "tj_inv V t \<Longrightarrow> distinct (stack t)"
  unfolding tj_inv_def using sorted_wrt_gt_distinct distinct_map by blast

lemma tj_inv_visit:
  assumes "tj_inv V t" and "indexTable t v = 0" and "v \<in> V"
  shows "tj_inv V (visit v t)"
proof -
  from assms(1) have st: "\<forall>x\<in>set (stack t). indexTable t x \<noteq> 0 \<and> lowLink t x \<le> indexTable t x"
    and le: "\<forall>x. indexTable t x \<le> t_index t"
    by (auto simp: tj_inv_def)
  from st assms(2) have nv: "v \<notin> set (stack t)" by auto
  then have m: "map ((indexTable t)(v := Suc (t_index t))) (stack t) = map (indexTable t) (stack t)"
    by (simp cong: map_cong)
  have gt: "\<forall>x\<in>set (stack t). indexTable t x < Suc (t_index t)"
    using le by (simp add: less_Suc_eq_le)
  have vis: "visited (visit v t) = insert v (visited t)"
    by (auto simp: visited_def visit_def Let_def)
  from assms(2) have nvis: "v \<notin> visited t" by (simp add: visited_def)
  show ?thesis
    using assms nv gt nvis
    unfolding tj_inv_def vis
    by (auto simp: visit_def Let_def m le_SucI)
qed


lemma tj_ext_visit: "indexTable t v = 0 \<Longrightarrow> tj_ext {} t (visit v t)"
  by (auto simp: tj_ext_def visit_def Let_def)

lemma tj_inv_set_lowLink:
  assumes "tj_inv V t" and "v \<in> set (stack t) \<longrightarrow> l \<le> indexTable t v"
  shows "tj_inv V (set_lowLink v l t)"
  using assms unfolding tj_inv_def set_lowLink_def visited_def by auto

lemma tj_ext_set_lowLink: "l \<le> lowLink t v \<Longrightarrow> tj_ext {v} t (set_lowLink v l t)"
  by (auto simp: tj_ext_def set_lowLink_def)

lemma pop_loop_append:
  "v \<notin> set new \<Longrightarrow>
     pop_loop v (new @ v # S) on acc = Some (S, on - set new - {v}, acc @ new @ [v])"
proof (induction new arbitrary: on acc)
  case Nil
  show ?case by simp
next
  case (Cons w new)
  then have "w \<noteq> v" "v \<notin> set new" by auto
  with Cons.IH [of "on - {w}" "acc @ [w]"] show ?case
    by (simp add: Diff_insert2 [symmetric])
qed

lemma tj_inv_pop:
  assumes inv: "tj_inv V t" and st: "stack t = new @ v # S"
  shows "\<exists>t'. pop_scc v t = Some t' \<and> tj_inv V t' \<and> stack t' = S \<and>
     sccs t' = sccs t @ [new @ [v]] \<and> indexTable t' = indexTable t \<and>
     lowLink t' = lowLink t \<and> t_index t' = t_index t"
proof -
  from tj_inv_distinct_stack [OF inv] st have d: "distinct (new @ v # S)" by simp
  then have nv: "v \<notin> set new" by auto
  let ?t' = "t\<lparr>onStack := onStack t - set new - {v}, stack := S,
      sccs := sccs t @ [new @ [v]]\<rparr>"
  from pop_loop_append [OF nv, of S "onStack t" "[]"] st
  have pop: "pop_scc v t = Some ?t'"
    by (simp add: pop_scc_def)
  from inv st have on: "onStack t = set new \<union> {v} \<union> set S" by (auto simp: tj_inv_def)
  from d have on': "onStack t - set new - {v} = set S"
    unfolding on by auto
  from inv st have srt: "sorted_wrt (>) (map (indexTable t) S)"
    by (auto simp: tj_inv_def sorted_wrt_append)
  from inv st have vis: "set new \<union> {v} \<subseteq> visited t"
    by (auto simp: tj_inv_def visited_def)
  from inv have cc: "set (concat (sccs t)) = visited t - set (stack t)"
    and dc: "distinct (concat (sccs t))"
    by (auto simp: tj_inv_def)
  have cc': "set (concat (sccs t @ [new @ [v]])) = visited t - set S"
    using cc vis d unfolding st by auto
  have dc': "distinct (concat (sccs t @ [new @ [v]]))"
    using dc d cc unfolding st by auto
  have "tj_inv V ?t'"
    using inv srt cc' dc' on' st
    unfolding tj_inv_def visited_def by auto
  with pop show ?thesis by simp
qed

lemma visited_visit: "visited (visit v t) = insert v (visited t)"
  by (auto simp: visited_def visit_def Let_def)

lemma tj_ext_visited: "tj_ext U t t' \<Longrightarrow> visited t \<subseteq> visited t'"
  by (auto simp: tj_ext_def visited_def)

lemma card_unvisited_mono:
  assumes "finite V" and "visited t \<subseteq> visited t'" and "card (V - visited t) \<le> n"
  shows "card (V - visited t') \<le> n"
proof -
  have "card (V - visited t') \<le> card (V - visited t)"
    using assms(1,2) by (intro card_mono) auto
  with assms(3) show ?thesis by simp
qed

lemma strongconnect_successors_inv:
  "tj_inv V t \<Longrightarrow> indexTable t v = 0 \<Longrightarrow> v \<in> V \<Longrightarrow> finite V \<Longrightarrow>
     (\<forall>x\<in>V. set (succ x) \<subseteq> V) \<Longrightarrow> card (V - visited t) \<le> n \<Longrightarrow>
     \<exists>t'. strongconnect n succ v t = Some t' \<and> tj_inv V t' \<and> tj_ext {} t t' \<and>
       indexTable t' v = Suc (t_index t)"
  "tj_inv V t \<Longrightarrow> v \<in> set (stack t) \<Longrightarrow> set ws \<subseteq> V \<Longrightarrow> finite V \<Longrightarrow>
     (\<forall>x\<in>V. set (succ x) \<subseteq> V) \<Longrightarrow> card (V - visited t) \<le> n \<Longrightarrow>
     \<exists>t'. successors n succ v ws t = Some t' \<and> tj_inv V t' \<and> tj_ext {v} t t'"
proof (induction n succ v t and n succ v ws t rule: strongconnect_successors.induct)
  case (1 succ v t)
  from "1.prems" have "v \<in> V - visited t" by (simp add: visited_def)
  with "1.prems"(4) have "card (V - visited t) \<noteq> 0" by auto
  with "1.prems"(6) show ?case by simp
next
  case (2 n succ v t)
  let ?t2 = "visit v t"
  have inv2: "tj_inv V ?t2" using "2.prems" by (simp add: tj_inv_visit)
  have on2: "v \<in> set (stack ?t2)" by (simp add: visit_def Let_def)
  from "2.prems" have sub: "set (succ v) \<subseteq> V" by blast
  from "2.prems" have "v \<in> V - visited t" by (simp add: visited_def)
  then have "card (V - visited ?t2) < card (V - visited t)"
    using "2.prems"(4) unfolding visited_visit
    by (intro psubset_card_mono) auto
  with "2.prems"(6) have c2: "card (V - visited ?t2) \<le> n" by simp
  from "2.IH" [OF inv2 on2 sub "2.prems"(4,5) c2] obtain t3 where
    s3: "successors n succ v (succ v) ?t2 = Some t3" and inv3: "tj_inv V t3"
    and ext3: "tj_ext {v} ?t2 t3"
    by blast
  have ext: "tj_ext {} t t3"
    using tj_ext_visit [OF "2.prems"(2)] ext3
    by (rule tj_ext_trans) (use "2.prems"(2) in auto)
  from ext3 obtain new where st3: "stack t3 = new @ v # stack t"
    by (auto simp: tj_ext_def visit_def Let_def)
  from ext3 have i3: "indexTable t3 v = Suc (t_index t)"
    by (auto simp: tj_ext_def visit_def Let_def)
  show ?case
  proof (cases "lowLink t3 v = indexTable t3 v")
    case True
    from tj_inv_pop [OF inv3 st3] obtain t' where
      p: "pop_scc v t3 = Some t'" "tj_inv V t'" "stack t' = stack t"
        "sccs t' = sccs t3 @ [new @ [v]]" "indexTable t' = indexTable t3"
        "lowLink t' = lowLink t3" "t_index t' = t_index t3"
      by blast
    from ext p have "tj_ext {} t t'"
      by (auto simp: tj_ext_def)
    with p s3 True i3 show ?thesis by simp
  next
    case False
    with s3 inv3 ext i3 show ?thesis by simp
  qed
next
  case (3 n succ v t)
  then show ?case by (simp add: tj_ext_refl)
next
  case (4 n succ v w ws t)
  from "4.prems" have wV: "w \<in> V" and wsV: "set ws \<subseteq> V" by auto
  from "4.prems"(1,2) have vvis: "indexTable t v \<noteq> 0" and lowv: "lowLink t v \<le> indexTable t v"
    by (auto simp: tj_inv_def)
  show ?case
  proof (cases "indexTable t w = 0")
    case True
    from "4.IH"(1) [OF True "4.prems"(1) True wV "4.prems"(4,5,6)] obtain t1 where
      s1: "strongconnect n succ w t = Some t1" and inv1: "tj_inv V t1"
      and ext1: "tj_ext {} t t1"
      by blast
    let ?l = "min (lowLink t1 v) (lowLink t1 w)"
    let ?t1 = "set_lowLink v ?l t1"
    from ext1 "4.prems"(2) have on1: "v \<in> set (stack t1)" by (auto simp: tj_ext_def)
    with inv1 have "lowLink t1 v \<le> indexTable t1 v" by (auto simp: tj_inv_def)
    then have inv1': "tj_inv V ?t1" using inv1 by (intro tj_inv_set_lowLink) auto
    have ext1': "tj_ext {v} t1 ?t1" by (rule tj_ext_set_lowLink) simp
    have on1': "v \<in> set (stack ?t1)" using on1 by (simp add: set_lowLink_def)
    have "visited t \<subseteq> visited ?t1"
      using tj_ext_visited [OF ext1] by (simp add: visited_def set_lowLink_def)
    from card_unvisited_mono [OF "4.prems"(4) this "4.prems"(6)]
    have c1: "card (V - visited ?t1) \<le> n" .
    from "4.IH"(2) [OF True s1 inv1' on1' wsV "4.prems"(4,5) c1] obtain t' where
      s': "successors n succ v ws ?t1 = Some t'" and inv': "tj_inv V t'"
      and ext': "tj_ext {v} ?t1 t'"
      by blast
    have "tj_ext {v} t ?t1"
      using ext1 ext1' by (rule tj_ext_trans) (use vvis in auto)
    then have "tj_ext {v} t t'"
      using ext' by (rule tj_ext_trans) (use vvis in auto)
    with True s1 s' inv' show ?thesis by simp
  next
    case False
    show ?thesis
    proof (cases "w \<in> onStack t")
      case True
      let ?l = "min (lowLink t v) (indexTable t w)"
      let ?t1 = "set_lowLink v ?l t"
      have inv1': "tj_inv V ?t1" using "4.prems"(1) lowv by (intro tj_inv_set_lowLink) auto
      have ext1': "tj_ext {v} t ?t1" by (rule tj_ext_set_lowLink) simp
      have on1': "v \<in> set (stack ?t1)" using "4.prems"(2) by (simp add: set_lowLink_def)
      have c1: "card (V - visited ?t1) \<le> n"
        using "4.prems"(6) by (simp add: visited_def set_lowLink_def)
      from "4.IH"(3) [OF False True inv1' on1' wsV "4.prems"(4,5) c1] obtain t' where
        s': "successors n succ v ws ?t1 = Some t'" and inv': "tj_inv V t'"
        and ext': "tj_ext {v} ?t1 t'"
        by blast
      have "tj_ext {v} t t'"
        using ext1' ext' by (rule tj_ext_trans) (use vvis in auto)
      with False True s' inv' show ?thesis by simp
    next
      case nos: False
      from "4.IH"(4) [OF False nos "4.prems"(1,2) wsV "4.prems"(4,5,6)]
      show ?thesis using False nos by simp
    qed
  qed
qed

text \<open>
  What the tables mean.  \<open>tj_sem\<close>: the low link of a node on the stack is the
  index of a node on the stack that it reaches; the successors of an emitted
  component lie in it or in earlier components; a component is strongly connected.
  \<open>tj_ctx succ v ds\<close> is the state of the loop over the successors of \<open>v\<close>, with \<open>ds\<close>
  the successors done; \<open>tj_post\<close> is what a call of \<open>strongconnect\<close> achieves.
\<close>

abbreviation reach :: "(int \<Rightarrow> int list) \<Rightarrow> (int \<times> int) set" where
  "reach succ \<equiv> (edges succ)\<^sup>*"

definition tj_sem :: "(int \<Rightarrow> int list) \<Rightarrow> tarjan \<Rightarrow> bool" where
  "tj_sem succ t \<longleftrightarrow>
     (\<forall>y\<in>set (stack t). \<exists>x\<in>set (stack t).
        indexTable t x = lowLink t y \<and> (y, x) \<in> reach succ) \<and>
     (\<forall>i<length (sccs t). \<forall>y\<in>set (sccs t ! i).
        set (succ y) \<subseteq> set (concat (take (Suc i) (sccs t)))) \<and>
     (\<forall>c\<in>set (sccs t). c \<noteq> [] \<and> (\<forall>x\<in>set c. \<forall>y\<in>set c. (x, y) \<in> reach succ))"

definition tj_ctx :: "(int \<Rightarrow> int list) \<Rightarrow> int \<Rightarrow> int set \<Rightarrow> tarjan \<Rightarrow> bool" where
  "tj_ctx succ v ds t \<longleftrightarrow>
     v \<in> set (stack t) \<and>
     (\<forall>z\<in>set (stack t). (z, v) \<in> reach succ) \<and>
     (\<forall>y\<in>set (stack t). indexTable t v < indexTable t y \<longrightarrow>
        (v, y) \<in> reach succ \<and> set (succ y) \<subseteq> visited t \<and>
        (\<forall>z\<in>set (succ y). z \<in> set (stack t) \<longrightarrow> lowLink t v \<le> indexTable t z)) \<and>
     (\<forall>z\<in>ds. indexTable t z \<noteq> 0 \<and> (z \<in> set (stack t) \<longrightarrow> lowLink t v \<le> indexTable t z))"

definition tj_post :: "(int \<Rightarrow> int list) \<Rightarrow> int \<Rightarrow> tarjan \<Rightarrow> tarjan \<Rightarrow> bool" where
  "tj_post succ w t t' \<longleftrightarrow>
     tj_sem succ t' \<and>
     (\<forall>y\<in>set (stack t'). y \<notin> set (stack t) \<longrightarrow>
        (w, y) \<in> reach succ \<and> set (succ y) \<subseteq> visited t' \<and>
        (\<forall>z\<in>set (succ y). z \<in> set (stack t') \<longrightarrow> lowLink t' w \<le> indexTable t' z) \<and>
        (\<exists>x\<in>set (stack t). (y, x) \<in> reach succ)) \<and>
     set (succ w) \<subseteq> visited t' \<and>
     (w \<in> set (stack t') \<longrightarrow>
        (\<exists>x\<in>set (stack t). indexTable t' x = lowLink t' w \<and> (w, x) \<in> reach succ)) \<and>
     (w \<notin> set (stack t') \<longrightarrow> lowLink t' w = indexTable t' w)"

lemma edge_reach: "w \<in> set (succ v) \<Longrightarrow> (v, w) \<in> reach succ"
  by (auto simp: edges_def)

lemma stack_split:
  assumes "sorted_wrt (>) (map f (new @ v # S))"
  shows "\<forall>z\<in>set new. f v < (f z :: nat)" and "\<forall>z\<in>set S. f z < f v"
  using assms by (auto simp: sorted_wrt_append)

lemma tj_sem_visit:
  assumes inv: "tj_inv V t" and sem: "tj_sem succ t" and nv: "indexTable t v = 0"
  shows "tj_sem succ (visit v t)"
proof -
  let ?t2 = "visit v t"
  from inv nv have ns: "\<forall>x\<in>set (stack t). x \<noteq> v" by (auto simp: tj_inv_def)
  have 1: "\<forall>y\<in>set (stack ?t2). \<exists>x\<in>set (stack ?t2).
        indexTable ?t2 x = lowLink ?t2 y \<and> (y, x) \<in> reach succ"
  proof
    fix y assume y: "y \<in> set (stack ?t2)"
    show "\<exists>x\<in>set (stack ?t2). indexTable ?t2 x = lowLink ?t2 y \<and> (y, x) \<in> reach succ"
    proof (cases "y = v")
      case True
      then show ?thesis by (auto simp: visit_def Let_def)
    next
      case False
      with y have ys: "y \<in> set (stack t)" by (simp add: visit_def Let_def)
      with sem obtain x where "x \<in> set (stack t)" "indexTable t x = lowLink t y"
        "(y, x) \<in> reach succ"
        unfolding tj_sem_def by blast
      with ns False show ?thesis by (auto simp: visit_def Let_def)
    qed
  qed
  from sem 1 show ?thesis
    unfolding tj_sem_def by (simp add: visit_def Let_def)
qed

lemma tj_ctx_visit:
  assumes inv: "tj_inv V t" and nv: "indexTable t v = 0"
    and r: "\<forall>z\<in>set (stack t). (z, v) \<in> reach succ"
  shows "tj_ctx succ v {} (visit v t)"
proof -
  from inv have "\<forall>y. indexTable t y \<le> t_index t" by (auto simp: tj_inv_def)
  then have "\<forall>y. \<not> Suc (t_index t) < indexTable t y"
    by (simp add: not_less le_SucI)
  with r show ?thesis
    unfolding tj_ctx_def by (auto simp: visit_def Let_def)
qed


lemma tj_sem_root:
  assumes inv: "tj_inv V t" and sem: "tj_sem succ t"
    and ctx: "tj_ctx succ v (set (succ v)) t"
    and st: "stack t = new @ v # S"
    and root: "lowLink t v = indexTable t v"
    and t': "stack t' = S" "sccs t' = sccs t @ [new @ [v]]" "indexTable t' = indexTable t"
      "lowLink t' = lowLink t"
  shows "tj_sem succ t'"
proof -
  from inv st have srt: "sorted_wrt (>) (map (indexTable t) (new @ v # S))"
    by (simp add: tj_inv_def)
  note above = stack_split(1) [OF srt] and below = stack_split(2) [OF srt]
  from inv have low: "\<forall>x\<in>set (stack t). lowLink t x \<le> indexTable t x"
    and cc: "set (concat (sccs t)) = visited t - set (stack t)"
    by (auto simp: tj_inv_def)
  from ctx have c2: "\<forall>z\<in>set (stack t). (z, v) \<in> reach succ"
    and c3: "\<And>y. y \<in> set (stack t) \<Longrightarrow> indexTable t v < indexTable t y \<Longrightarrow>
        (v, y) \<in> reach succ \<and> set (succ y) \<subseteq> visited t \<and>
        (\<forall>z\<in>set (succ y). z \<in> set (stack t) \<longrightarrow> lowLink t v \<le> indexTable t z)"
    and c4: "\<And>z. z \<in> set (succ v) \<Longrightarrow>
        indexTable t z \<noteq> 0 \<and> (z \<in> set (stack t) \<longrightarrow> lowLink t v \<le> indexTable t z)"
    unfolding tj_ctx_def by blast+
  have 1: "\<forall>y\<in>set (stack t'). \<exists>x\<in>set (stack t').
        indexTable t' x = lowLink t' y \<and> (y, x) \<in> reach succ"
  proof
    fix y assume "y \<in> set (stack t')"
    then have yS: "y \<in> set S" by (simp add: t')
    then have ys: "y \<in> set (stack t)" by (simp add: st)
    with sem obtain x where x: "x \<in> set (stack t)" "indexTable t x = lowLink t y"
      "(y, x) \<in> reach succ"
      unfolding tj_sem_def by blast
    from low ys have "lowLink t y \<le> indexTable t y" by blast
    with below yS x(2) have lt: "indexTable t x < indexTable t v" by auto
    have "x \<in> set S"
    proof (rule ccontr)
      assume "x \<notin> set S"
      with x(1) st have "x \<in> set new \<or> x = v" by auto
      with above lt show False by auto
    qed
    with x show "\<exists>x\<in>set (stack t'). indexTable t' x = lowLink t' y \<and> (y, x) \<in> reach succ"
      by (auto simp: t')
  qed
  have comp_reach: "\<forall>x\<in>set (new @ [v]). \<forall>y\<in>set (new @ [v]). (x, y) \<in> reach succ"
  proof (intro ballI)
    fix x y assume x: "x \<in> set (new @ [v])" and y: "y \<in> set (new @ [v])"
    from x st c2 have xv: "(x, v) \<in> reach succ" by auto
    have vy: "(v, y) \<in> reach succ"
    proof (cases "y = v")
      case True then show ?thesis by simp
    next
      case False
      with y have "y \<in> set new" by simp
      with above st c3 [of y] show ?thesis by auto
    qed
    from xv vy show "(x, y) \<in> reach succ" by (rule rtrancl_trans)
  qed
  from sem have 3: "\<forall>c\<in>set (sccs t'). c \<noteq> [] \<and> (\<forall>x\<in>set c. \<forall>y\<in>set c. (x, y) \<in> reach succ)"
    unfolding tj_sem_def t' using comp_reach by auto
  have closed_new: "\<forall>y\<in>set (new @ [v]). set (succ y) \<subseteq> set (concat (sccs t)) \<union> set (new @ [v])"
  proof (intro ballI subsetI)
    fix y z assume y: "y \<in> set (new @ [v])" and z: "z \<in> set (succ y)"
    have zz: "indexTable t z \<noteq> 0 \<and> (z \<in> set (stack t) \<longrightarrow> lowLink t v \<le> indexTable t z)"
    proof (cases "y = v")
      case True
      with z c4 show ?thesis by blast
    next
      case False
      with y have yn: "y \<in> set new" by simp
      with above have "indexTable t v < indexTable t y" by blast
      with c3 [of y] yn st z show ?thesis by (auto simp: visited_def)
    qed
    show "z \<in> set (concat (sccs t)) \<union> set (new @ [v])"
    proof (cases "z \<in> set (stack t)")
      case True
      with zz root have "indexTable t v \<le> indexTable t z" by simp
      with below have "z \<notin> set S" by auto
      with True st show ?thesis by auto
    next
      case False
      with zz cc show ?thesis by (auto simp: visited_def)
    qed
  qed
  have 2: "\<forall>i<length (sccs t'). \<forall>y\<in>set (sccs t' ! i).
        set (succ y) \<subseteq> set (concat (take (Suc i) (sccs t')))"
  proof (intro allI impI)
    fix i assume i: "i < length (sccs t')"
    show "\<forall>y\<in>set (sccs t' ! i). set (succ y) \<subseteq> set (concat (take (Suc i) (sccs t')))"
    proof (cases "i < length (sccs t)")
      case True
      with sem show ?thesis
        unfolding tj_sem_def t' by (simp add: nth_append)
    next
      case False
      with i have "i = length (sccs t)" by (simp add: t')
      with closed_new show ?thesis
        by (simp add: t' nth_append)
    qed
  qed
  from 1 2 3 show ?thesis unfolding tj_sem_def by blast
qed


lemma tj_post_root:
  assumes inv: "tj_inv V t3" and sem: "tj_sem succ t3"
    and ctx: "tj_ctx succ v (set (succ v)) t3"
    and st: "stack t3 = new @ v # stack t"
    and root: "lowLink t3 v = indexTable t3 v"
    and t': "stack t' = stack t" "sccs t' = sccs t3 @ [new @ [v]]"
      "indexTable t' = indexTable t3" "lowLink t' = lowLink t3"
  shows "tj_post succ v t t'"
proof -
  have sem': "tj_sem succ t'"
    using inv sem ctx st root t' by (rule tj_sem_root)
  from tj_inv_distinct_stack [OF inv] st have nv: "v \<notin> set (stack t)" by simp
  from ctx have "set (succ v) \<subseteq> visited t'"
    unfolding tj_ctx_def visited_def t' by auto
  with sem' nv root show ?thesis
    unfolding tj_post_def by (simp add: t')
qed

lemma tj_post_nonroot:
  assumes inv: "tj_inv V t3" and sem: "tj_sem succ t3"
    and ctx: "tj_ctx succ v (set (succ v)) t3"
    and st: "stack t3 = new @ v # stack t"
    and nonroot: "lowLink t3 v \<noteq> indexTable t3 v"
  shows "tj_post succ v t t3"
proof -
  from inv st have srt: "sorted_wrt (>) (map (indexTable t3) (new @ v # stack t))"
    by (simp add: tj_inv_def)
  note above = stack_split(1) [OF srt] and below = stack_split(2) [OF srt]
  from st have von: "v \<in> set (stack t3)" by simp
  with inv nonroot have lt: "lowLink t3 v < indexTable t3 v"
    by (auto simp: tj_inv_def le_neq_implies_less)
  from ctx have c2: "\<forall>z\<in>set (stack t3). (z, v) \<in> reach succ"
    and c3: "\<And>y. y \<in> set (stack t3) \<Longrightarrow> indexTable t3 v < indexTable t3 y \<Longrightarrow>
        (v, y) \<in> reach succ \<and> set (succ y) \<subseteq> visited t3 \<and>
        (\<forall>z\<in>set (succ y). z \<in> set (stack t3) \<longrightarrow> lowLink t3 v \<le> indexTable t3 z)"
    and c4: "\<And>z. z \<in> set (succ v) \<Longrightarrow>
        indexTable t3 z \<noteq> 0 \<and> (z \<in> set (stack t3) \<longrightarrow> lowLink t3 v \<le> indexTable t3 z)"
    unfolding tj_ctx_def by blast+
  from sem von obtain x where x: "x \<in> set (stack t3)" "indexTable t3 x = lowLink t3 v"
    "(v, x) \<in> reach succ"
    unfolding tj_sem_def by blast
  have xS: "x \<in> set (stack t)"
  proof (rule ccontr)
    assume "x \<notin> set (stack t)"
    with x(1) st have "x \<in> set new \<or> x = v" by auto
    with above x(2) lt show False by auto
  qed
  have new_facts: "\<forall>y\<in>set (stack t3). y \<notin> set (stack t) \<longrightarrow>
        (v, y) \<in> reach succ \<and> set (succ y) \<subseteq> visited t3 \<and>
        (\<forall>z\<in>set (succ y). z \<in> set (stack t3) \<longrightarrow> lowLink t3 v \<le> indexTable t3 z) \<and>
        (\<exists>x\<in>set (stack t). (y, x) \<in> reach succ)"
  proof (intro ballI impI)
    fix y assume y: "y \<in> set (stack t3)" and yn: "y \<notin> set (stack t)"
    from c2 y have "(y, v) \<in> reach succ" by blast
    from this x(3) have "(y, x) \<in> reach succ" by (rule rtrancl_trans)
    with xS have ex: "\<exists>x\<in>set (stack t). (y, x) \<in> reach succ" by blast
    show "(v, y) \<in> reach succ \<and> set (succ y) \<subseteq> visited t3 \<and>
        (\<forall>z\<in>set (succ y). z \<in> set (stack t3) \<longrightarrow> lowLink t3 v \<le> indexTable t3 z) \<and>
        (\<exists>x\<in>set (stack t). (y, x) \<in> reach succ)"
    proof (cases "y = v")
      case True
      with c4 ex show ?thesis by (auto simp: visited_def)
    next
      case False
      with y yn st have "y \<in> set new" by auto
      with above have "indexTable t3 v < indexTable t3 y" by blast
      from c3 [OF y this] ex show ?thesis by blast
    qed
  qed
  from c4 have sv: "set (succ v) \<subseteq> visited t3" by (auto simp: visited_def)
  from sem new_facts sv von x xS show ?thesis
    unfolding tj_post_def by blast
qed

lemma tj_step_unvisited:
  assumes inv: "tj_inv V t" and ctx: "tj_ctx succ v ds t"
    and w: "w \<in> set (succ v)"
    and inv1: "tj_inv V t1" and ext: "tj_ext {} t t1"
    and iw: "indexTable t1 w = Suc (t_index t)"
    and post: "tj_post succ w t t1"
  shows "tj_sem succ (set_lowLink v (min (lowLink t1 v) (lowLink t1 w)) t1)"
    and "tj_ctx succ v (insert w ds) (set_lowLink v (min (lowLink t1 v) (lowLink t1 w)) t1)"
proof -
  define l where "l = min (lowLink t1 v) (lowLink t1 w)"
  define t2 where "t2 = set_lowLink v l t1"
  have l_le: "l \<le> lowLink t1 v" "l \<le> lowLink t1 w"
    and l_eq: "lowLink t1 v \<le> lowLink t1 w \<Longrightarrow> l = lowLink t1 v"
      "\<not> lowLink t1 v \<le> lowLink t1 w \<Longrightarrow> l = lowLink t1 w"
    by (simp_all add: l_def)
  from ext obtain new where
    idx: "\<And>x. indexTable t x \<noteq> 0 \<Longrightarrow> indexTable t1 x = indexTable t x"
    and low: "\<And>x. indexTable t x \<noteq> 0 \<Longrightarrow> lowLink t1 x = lowLink t x"
    and st1: "stack t1 = new @ stack t" and new: "\<And>x. x \<in> set new \<Longrightarrow> indexTable t x = 0"
    unfolding tj_ext_def by auto
  from ctx have c1: "v \<in> set (stack t)"
    and c2: "\<forall>z\<in>set (stack t). (z, v) \<in> reach succ"
    and c3: "\<And>y. y \<in> set (stack t) \<Longrightarrow> indexTable t v < indexTable t y \<Longrightarrow>
        (v, y) \<in> reach succ \<and> set (succ y) \<subseteq> visited t \<and>
        (\<forall>z\<in>set (succ y). z \<in> set (stack t) \<longrightarrow> lowLink t v \<le> indexTable t z)"
    and c4: "\<And>z. z \<in> ds \<Longrightarrow>
        indexTable t z \<noteq> 0 \<and> (z \<in> set (stack t) \<longrightarrow> lowLink t v \<le> indexTable t z)"
    unfolding tj_ctx_def by blast+
  from inv have stv: "\<forall>x\<in>set (stack t). indexTable t x \<noteq> 0"
    and le: "\<forall>x. indexTable t x \<le> t_index t"
    by (auto simp: tj_inv_def)
  from c1 stv have vv: "indexTable t v \<noteq> 0" by blast
  have iv: "indexTable t1 v = indexTable t v" and lv: "lowLink t1 v = lowLink t v"
    using idx [OF vv] low [OF vv] by simp_all
  from c1 st1 have v1: "v \<in> set (stack t1)" by simp
  with inv1 have lv1: "lowLink t1 v \<le> indexTable t1 v" by (auto simp: tj_inv_def)
  from le iw iv have vw: "indexTable t1 v < indexTable t1 w"
    by (simp add: less_Suc_eq_le)
  from post have sem1: "tj_sem succ t1"
    and pnew: "\<And>y. y \<in> set (stack t1) \<Longrightarrow> y \<notin> set (stack t) \<Longrightarrow>
        (w, y) \<in> reach succ \<and> set (succ y) \<subseteq> visited t1 \<and>
        (\<forall>z\<in>set (succ y). z \<in> set (stack t1) \<longrightarrow> lowLink t1 w \<le> indexTable t1 z) \<and>
        (\<exists>x\<in>set (stack t). (y, x) \<in> reach succ)"
    and pon: "w \<in> set (stack t1) \<Longrightarrow>
        \<exists>x\<in>set (stack t). indexTable t1 x = lowLink t1 w \<and> (w, x) \<in> reach succ"
    and poff: "w \<notin> set (stack t1) \<Longrightarrow> lowLink t1 w = indexTable t1 w"
    unfolding tj_post_def by blast+
  have vw_edge: "(v, w) \<in> reach succ" using w by (rule edge_reach)
  have old_stack: "\<And>z. z \<in> set (stack t1) \<Longrightarrow> indexTable t z \<noteq> 0 \<Longrightarrow> z \<in> set (stack t)"
    using st1 new by auto
  have st: "stack t2 = stack t1" "indexTable t2 = indexTable t1" "sccs t2 = sccs t1"
    "visited t2 = visited t1"
    by (simp_all add: t2_def set_lowLink_def visited_def)
  have lowt: "lowLink t2 v = l" "\<And>y. y \<noteq> v \<Longrightarrow> lowLink t2 y = lowLink t1 y"
    by (simp_all add: t2_def set_lowLink_def)
  have s1: "\<forall>y\<in>set (stack t2). \<exists>x\<in>set (stack t2).
        indexTable t2 x = lowLink t2 y \<and> (y, x) \<in> reach succ"
  proof
    fix y assume "y \<in> set (stack t2)"
    then have y: "y \<in> set (stack t1)" by (simp add: st)
    from sem1 y obtain x where x: "x \<in> set (stack t1)" "indexTable t1 x = lowLink t1 y"
      "(y, x) \<in> reach succ"
      unfolding tj_sem_def by blast
    show "\<exists>x\<in>set (stack t2). indexTable t2 x = lowLink t2 y \<and> (y, x) \<in> reach succ"
    proof (cases "y = v")
      case False
      with x show ?thesis by (auto simp: st lowt)
    next
      case True
      show ?thesis
      proof (cases "lowLink t1 v \<le> lowLink t1 w")
        case le: True
        with x True l_eq(1) show ?thesis by (auto simp: st lowt)
      next
        case gt: False
        with lv1 vw have "lowLink t1 w \<noteq> indexTable t1 w" by simp
        with poff have "w \<in> set (stack t1)" by blast
        from pon [OF this] obtain x' where x': "x' \<in> set (stack t)"
          "indexTable t1 x' = lowLink t1 w" "(w, x') \<in> reach succ"
          by blast
        from vw_edge x'(3) have "(v, x') \<in> reach succ" by (rule rtrancl_trans)
        with x' l_eq(2) [OF gt] True st1 show ?thesis by (auto simp: st lowt)
      qed
    qed
  qed
  from sem1 s1 have "tj_sem succ t2"
    unfolding tj_sem_def by (simp add: st)
  then show "tj_sem succ (set_lowLink v (min (lowLink t1 v) (lowLink t1 w)) t1)"
    by (simp add: t2_def l_def)
  have k2: "\<forall>z\<in>set (stack t2). (z, v) \<in> reach succ"
  proof
    fix z assume "z \<in> set (stack t2)"
    then have z: "z \<in> set (stack t1)" by (simp add: st)
    show "(z, v) \<in> reach succ"
    proof (cases "z \<in> set (stack t)")
      case True
      with c2 show ?thesis by blast
    next
      case False
      from pnew [OF z False] obtain x where "x \<in> set (stack t)" "(z, x) \<in> reach succ"
        by blast
      with c2 show ?thesis by (blast intro: rtrancl_trans)
    qed
  qed
  have k3: "\<forall>y\<in>set (stack t2). indexTable t2 v < indexTable t2 y \<longrightarrow>
        (v, y) \<in> reach succ \<and> set (succ y) \<subseteq> visited t2 \<and>
        (\<forall>z\<in>set (succ y). z \<in> set (stack t2) \<longrightarrow> lowLink t2 v \<le> indexTable t2 z)"
  proof (intro ballI impI)
    fix y assume "y \<in> set (stack t2)" and "indexTable t2 v < indexTable t2 y"
    then have y: "y \<in> set (stack t1)" and vy: "indexTable t1 v < indexTable t1 y"
      by (simp_all add: st)
    show "(v, y) \<in> reach succ \<and> set (succ y) \<subseteq> visited t2 \<and>
        (\<forall>z\<in>set (succ y). z \<in> set (stack t2) \<longrightarrow> lowLink t2 v \<le> indexTable t2 z)"
    proof (cases "y \<in> set (stack t)")
      case True
      with stv have yv: "indexTable t y \<noteq> 0" by blast
      with vy iv idx [OF yv] have "indexTable t v < indexTable t y" by simp
      from c3 [OF True this] have r: "(v, y) \<in> reach succ"
        and sv: "set (succ y) \<subseteq> visited t"
        and lo: "\<forall>z\<in>set (succ y). z \<in> set (stack t) \<longrightarrow> lowLink t v \<le> indexTable t z"
        by blast+
      have "\<forall>z\<in>set (succ y). z \<in> set (stack t1) \<longrightarrow> l \<le> indexTable t1 z"
      proof (intro ballI impI)
        fix z assume z: "z \<in> set (succ y)" and zs: "z \<in> set (stack t1)"
        from z sv have zv: "indexTable t z \<noteq> 0" by (auto simp: visited_def)
        from old_stack [OF zs zv] lo z have "lowLink t v \<le> indexTable t z" by blast
        with idx [OF zv] lv l_le(1) show "l \<le> indexTable t1 z" by simp
      qed
      moreover from sv tj_ext_visited [OF ext] have "set (succ y) \<subseteq> visited t1" by blast
      ultimately show ?thesis using r by (simp add: st lowt)
    next
      case False
      from pnew [OF y False] have r: "(w, y) \<in> reach succ"
        and sv: "set (succ y) \<subseteq> visited t1"
        and lo: "\<forall>z\<in>set (succ y). z \<in> set (stack t1) \<longrightarrow> lowLink t1 w \<le> indexTable t1 z"
        by blast+
      from vw_edge r have "(v, y) \<in> reach succ" by (rule rtrancl_trans)
      moreover from lo l_le(2) have "\<forall>z\<in>set (succ y). z \<in> set (stack t1) \<longrightarrow> l \<le> indexTable t1 z"
        by (auto intro: order_trans)
      ultimately show ?thesis using sv by (simp add: st lowt)
    qed
  qed
  have k4: "\<forall>z\<in>insert w ds. indexTable t2 z \<noteq> 0 \<and>
        (z \<in> set (stack t2) \<longrightarrow> lowLink t2 v \<le> indexTable t2 z)"
  proof
    fix z assume z: "z \<in> insert w ds"
    show "indexTable t2 z \<noteq> 0 \<and> (z \<in> set (stack t2) \<longrightarrow> lowLink t2 v \<le> indexTable t2 z)"
    proof (cases "z = w")
      case True
      with iw lv1 vw l_le(1) show ?thesis by (simp add: st lowt)
    next
      case False
      with z have zd: "z \<in> ds" by simp
      from c4 [OF zd] have zv: "indexTable t z \<noteq> 0"
        and lo: "z \<in> set (stack t) \<longrightarrow> lowLink t v \<le> indexTable t z"
        by blast+
      have "z \<in> set (stack t1) \<longrightarrow> l \<le> indexTable t1 z"
      proof
        assume "z \<in> set (stack t1)"
        from old_stack [OF this zv] lo have "lowLink t v \<le> indexTable t z" by blast
        with idx [OF zv] lv l_le(1) show "l \<le> indexTable t1 z" by simp
      qed
      with zv idx [OF zv] show ?thesis by (simp add: st lowt)
    qed
  qed
  from v1 k2 k3 k4 have "tj_ctx succ v (insert w ds) t2"
    unfolding tj_ctx_def by (simp add: st)
  then show "tj_ctx succ v (insert w ds) (set_lowLink v (min (lowLink t1 v) (lowLink t1 w)) t1)"
    by (simp add: t2_def l_def)
qed


lemma tj_step_on_stack:
  assumes sem: "tj_sem succ t" and ctx: "tj_ctx succ v ds t"
    and w: "w \<in> set (succ v)" and wv: "indexTable t w \<noteq> 0" and ws: "w \<in> set (stack t)"
  shows "tj_sem succ (set_lowLink v (min (lowLink t v) (indexTable t w)) t)"
    and "tj_ctx succ v (insert w ds) (set_lowLink v (min (lowLink t v) (indexTable t w)) t)"
proof -
  define l where "l = min (lowLink t v) (indexTable t w)"
  define t2 where "t2 = set_lowLink v l t"
  have l_le: "l \<le> lowLink t v" "l \<le> indexTable t w"
    and l_eq: "lowLink t v \<le> indexTable t w \<Longrightarrow> l = lowLink t v"
      "\<not> lowLink t v \<le> indexTable t w \<Longrightarrow> l = indexTable t w"
    by (simp_all add: l_def)
  have st: "stack t2 = stack t" "indexTable t2 = indexTable t" "sccs t2 = sccs t"
    "visited t2 = visited t"
    by (simp_all add: t2_def set_lowLink_def visited_def)
  have lowt: "lowLink t2 v = l" "\<And>y. y \<noteq> v \<Longrightarrow> lowLink t2 y = lowLink t y"
    by (simp_all add: t2_def set_lowLink_def)
  have vw_edge: "(v, w) \<in> reach succ" using w by (rule edge_reach)
  have s1: "\<forall>y\<in>set (stack t2). \<exists>x\<in>set (stack t2).
        indexTable t2 x = lowLink t2 y \<and> (y, x) \<in> reach succ"
  proof
    fix y assume "y \<in> set (stack t2)"
    then have y: "y \<in> set (stack t)" by (simp add: st)
    from sem y obtain x where x: "x \<in> set (stack t)" "indexTable t x = lowLink t y"
      "(y, x) \<in> reach succ"
      unfolding tj_sem_def by blast
    show "\<exists>x\<in>set (stack t2). indexTable t2 x = lowLink t2 y \<and> (y, x) \<in> reach succ"
    proof (cases "y = v")
      case False
      with x show ?thesis by (auto simp: st lowt)
    next
      case True
      show ?thesis
      proof (cases "lowLink t v \<le> indexTable t w")
        case le: True
        with x True l_eq(1) show ?thesis by (auto simp: st lowt)
      next
        case gt: False
        with ws vw_edge l_eq(2) [OF gt] True show ?thesis by (auto simp: st lowt)
      qed
    qed
  qed
  from sem s1 have "tj_sem succ t2"
    unfolding tj_sem_def by (simp add: st)
  then show "tj_sem succ (set_lowLink v (min (lowLink t v) (indexTable t w)) t)"
    by (simp add: t2_def l_def)
  from ctx l_le wv have "tj_ctx succ v (insert w ds) t2"
    unfolding tj_ctx_def by (auto simp: st lowt intro: order_trans)
  then show "tj_ctx succ v (insert w ds) (set_lowLink v (min (lowLink t v) (indexTable t w)) t)"
    by (simp add: t2_def l_def)
qed

lemma tj_step_off_stack:
  assumes ctx: "tj_ctx succ v ds t" and wv: "indexTable t w \<noteq> 0" and ws: "w \<notin> set (stack t)"
  shows "tj_ctx succ v (insert w ds) t"
  using assms unfolding tj_ctx_def by auto

lemma strongconnect_successors_sem:
  "tj_inv V t \<Longrightarrow> tj_sem succ t \<Longrightarrow> indexTable t v = 0 \<Longrightarrow> v \<in> V \<Longrightarrow> finite V \<Longrightarrow>
     (\<forall>x\<in>V. set (succ x) \<subseteq> V) \<Longrightarrow> card (V - visited t) \<le> n \<Longrightarrow>
     (\<forall>z\<in>set (stack t). (z, v) \<in> reach succ) \<Longrightarrow>
     strongconnect n succ v t = Some t' \<Longrightarrow> tj_post succ v t t'"
  "tj_inv V t \<Longrightarrow> tj_sem succ t \<Longrightarrow> tj_ctx succ v ds t \<Longrightarrow> set ws \<subseteq> set (succ v) \<Longrightarrow>
     v \<in> V \<Longrightarrow> finite V \<Longrightarrow>
     (\<forall>x\<in>V. set (succ x) \<subseteq> V) \<Longrightarrow> card (V - visited t) \<le> n \<Longrightarrow>
     successors n succ v ws t = Some t' \<Longrightarrow> tj_sem succ t' \<and> tj_ctx succ v (ds \<union> set ws) t'"
proof (induction n succ v t and n succ v ws t arbitrary: t' and t' ds
    rule: strongconnect_successors.induct)
  case (1 succ v t)
  then show ?case by simp
next
  case (2 n succ v t)
  let ?t2 = "visit v t"
  have inv2: "tj_inv V ?t2" using "2.prems" by (simp add: tj_inv_visit)
  have sem2: "tj_sem succ ?t2" using "2.prems" by (simp add: tj_sem_visit)
  have ctx2: "tj_ctx succ v {} ?t2" using "2.prems" by (simp add: tj_ctx_visit)
  have on2: "v \<in> set (stack ?t2)" by (simp add: visit_def Let_def)
  from "2.prems" have sub: "set (succ v) \<subseteq> V" by blast
  from "2.prems" have "v \<in> V - visited t" by (simp add: visited_def)
  then have "card (V - visited ?t2) < card (V - visited t)"
    using "2.prems"(5) unfolding visited_visit
    by (intro psubset_card_mono) auto
  with "2.prems"(7) have c2: "card (V - visited ?t2) \<le> n" by simp
  from strongconnect_successors_inv(2) [OF inv2 on2 sub "2.prems"(5,6) c2] obtain t3 where
    s3: "successors n succ v (succ v) ?t2 = Some t3" and inv3: "tj_inv V t3"
    and ext3: "tj_ext {v} ?t2 t3"
    by blast
  from "2.IH" [OF inv2 sem2 ctx2 subset_refl "2.prems"(4,5,6) c2 s3]
  have sem3: "tj_sem succ t3" and ctx3: "tj_ctx succ v (set (succ v)) t3" by simp_all
  from ext3 obtain new where st3: "stack t3 = new @ v # stack t"
    by (auto simp: tj_ext_def visit_def Let_def)
  show ?case
  proof (cases "lowLink t3 v = indexTable t3 v")
    case True
    from tj_inv_pop [OF inv3 st3] obtain t4 where
      p: "pop_scc v t3 = Some t4" "stack t4 = stack t"
        "sccs t4 = sccs t3 @ [new @ [v]]" "indexTable t4 = indexTable t3"
        "lowLink t4 = lowLink t3"
      by blast
    from "2.prems"(9) s3 True p(1) have "t' = t4" by simp
    with tj_post_root [OF inv3 sem3 ctx3 st3 True p(2-5)] show ?thesis by simp
  next
    case False
    from "2.prems"(9) s3 False have "t' = t3" by simp
    with tj_post_nonroot [OF inv3 sem3 ctx3 st3 False] show ?thesis by simp
  qed
next
  case (3 n succ v t)
  then show ?case by simp
next
  case (4 n succ v w ws t)
  from "4.prems" have w: "w \<in> set (succ v)" and wss: "set ws \<subseteq> set (succ v)" by auto
  from "4.prems" have sv: "set (succ v) \<subseteq> V" by blast
  with w have wV: "w \<in> V" by blast
  from "4.prems"(3) have von: "v \<in> set (stack t)"
    and c2: "\<forall>z\<in>set (stack t). (z, v) \<in> reach succ"
    by (auto simp: tj_ctx_def)
  from "4.prems"(1) von have lowv: "lowLink t v \<le> indexTable t v"
    by (auto simp: tj_inv_def)
  have un: "insert w ds \<union> set ws = ds \<union> set (w # ws)" by auto
  show ?case
  proof (cases "indexTable t w = 0")
    case True
    from strongconnect_successors_inv(1) [OF "4.prems"(1) True wV "4.prems"(6,7,8)]
    obtain t1 where s1: "strongconnect n succ w t = Some t1" and inv1: "tj_inv V t1"
      and ext1: "tj_ext {} t t1" and iw: "indexTable t1 w = Suc (t_index t)"
      by blast
    have "(v, w) \<in> reach succ" using w by (rule edge_reach)
    with c2 have "\<forall>z\<in>set (stack t). (z, w) \<in> reach succ"
      by (blast intro: rtrancl_trans)
    from "4.IH"(1) [OF True "4.prems"(1,2) True wV "4.prems"(6,7,8) this s1]
    have post: "tj_post succ w t t1" .
    let ?t1 = "set_lowLink v (min (lowLink t1 v) (lowLink t1 w)) t1"
    from ext1 von have on1: "v \<in> set (stack t1)" by (auto simp: tj_ext_def)
    with inv1 have "lowLink t1 v \<le> indexTable t1 v" by (auto simp: tj_inv_def)
    then have inv1': "tj_inv V ?t1" using inv1 by (intro tj_inv_set_lowLink) auto
    have "visited t \<subseteq> visited ?t1"
      using tj_ext_visited [OF ext1] by (simp add: visited_def set_lowLink_def)
    from card_unvisited_mono [OF "4.prems"(6) this "4.prems"(8)]
    have c1: "card (V - visited ?t1) \<le> n" .
    from "4.prems"(9) True s1 have s': "successors n succ v ws ?t1 = Some t'" by simp
    note step = tj_step_unvisited [OF "4.prems"(1,3) w inv1 ext1 iw post]
    from "4.IH"(2) [OF True s1 inv1' step wss "4.prems"(5,6,7) c1 s']
    show ?thesis by (simp only: un)
  next
    case False
    show ?thesis
    proof (cases "w \<in> onStack t")
      case True
      with "4.prems"(1) have ws: "w \<in> set (stack t)" by (simp add: tj_inv_def)
      let ?t1 = "set_lowLink v (min (lowLink t v) (indexTable t w)) t"
      have inv1': "tj_inv V ?t1" using "4.prems"(1) lowv by (intro tj_inv_set_lowLink) auto
      have c1: "card (V - visited ?t1) \<le> n"
        using "4.prems"(8) by (simp add: visited_def set_lowLink_def)
      from "4.prems"(9) False True have s': "successors n succ v ws ?t1 = Some t'" by simp
      note step = tj_step_on_stack [OF "4.prems"(2,3) w False ws]
      from "4.IH"(3) [OF False True inv1' step wss "4.prems"(5,6,7) c1 s']
      show ?thesis by (simp only: un)
    next
      case nos: False
      with "4.prems"(1) have ws: "w \<notin> set (stack t)" by (simp add: tj_inv_def)
      from "4.prems"(9) False nos have s': "successors n succ v ws t = Some t'" by simp
      note step = tj_step_off_stack [OF "4.prems"(3) False ws]
      from "4.IH"(4) [OF False nos "4.prems"(1,2) step wss "4.prems"(5,6,7,8) s']
      show ?thesis by (simp only: un)
    qed
  qed
qed

lemma tarjan_nodes_correct:
  assumes "tj_inv V t" and "tj_sem succ t" and "stack t = []" and "set vs \<subseteq> V"
    and "finite V" and "\<forall>x\<in>V. set (succ x) \<subseteq> V" and "card V \<le> n"
  shows "\<exists>t'. tarjan_nodes n succ vs t = Some t' \<and> tj_inv V t' \<and> tj_sem succ t' \<and>
     stack t' = [] \<and> visited t \<union> set vs \<subseteq> visited t'"
  using assms(1-4)
proof (induction vs arbitrary: t)
  case Nil
  then show ?case by simp
next
  case (Cons v vs)
  from Cons.prems have vV: "v \<in> V" and vsV: "set vs \<subseteq> V" by auto
  show ?case
  proof (cases "indexTable t v = 0")
    case True
    have "card (V - visited t) \<le> card V" using assms(5) by (intro card_mono) auto
    with assms(7) have c: "card (V - visited t) \<le> n" by simp
    from strongconnect_successors_inv(1) [OF Cons.prems(1) True vV assms(5,6) c]
    obtain t1 where s1: "strongconnect n succ v t = Some t1" and inv1: "tj_inv V t1"
      and ext1: "tj_ext {} t t1" and iv: "indexTable t1 v = Suc (t_index t)"
      by blast
    have "\<forall>z\<in>set (stack t). (z, v) \<in> reach succ" by (simp add: Cons.prems(3))
    from strongconnect_successors_sem(1) [OF Cons.prems(1,2) True vV assms(5,6) c this s1]
    have post: "tj_post succ v t t1" .
    then have sem1: "tj_sem succ t1" by (simp add: tj_post_def)
    have st1: "stack t1 = []"
    proof (cases "stack t1")
      case Nil then show ?thesis .
    next
      case (Cons y ys)
      then have "y \<in> set (stack t1)" "y \<notin> set (stack t)" by (simp_all add: Cons.prems(3))
      with post have "\<exists>x\<in>set (stack t). (y, x) \<in> reach succ"
        unfolding tj_post_def by blast
      then show ?thesis by (simp add: Cons.prems(3))
    qed
    from Cons.IH [OF inv1 sem1 st1 vsV] obtain t' where
      t': "tarjan_nodes n succ vs t1 = Some t'" "tj_inv V t'" "tj_sem succ t'" "stack t' = []"
      "visited t1 \<union> set vs \<subseteq> visited t'"
      by blast
    from iv have "v \<in> visited t1" by (simp add: visited_def)
    with t'(5) tj_ext_visited [OF ext1] have "visited t \<union> set (v # vs) \<subseteq> visited t'" by auto
    with t' True s1 show ?thesis by simp
  next
    case False
    from Cons.IH [OF Cons.prems(1,2,3) vsV] obtain t' where
      t': "tarjan_nodes n succ vs t = Some t'" "tj_inv V t'" "tj_sem succ t'" "stack t' = []"
      "visited t \<union> set vs \<subseteq> visited t'"
      by blast
    from False have "v \<in> visited t" by (simp add: visited_def)
    with t'(5) have "visited t \<union> set (v # vs) \<subseteq> visited t'" by auto
    with t' False show ?thesis by simp
  qed
qed

lemma TarjanSCC_correct:
  assumes closed: "\<forall>x\<in>set nodes. set (succ x) \<subseteq> set nodes"
  shows "\<exists>cs. TarjanSCC nodes succ = Some cs \<and> set (concat cs) = set nodes \<and>
     distinct (concat cs) \<and>
     (\<forall>i<length cs. \<forall>y\<in>set (cs ! i). set (succ y) \<subseteq> set (concat (take (Suc i) cs))) \<and>
     (\<forall>c\<in>set cs. c \<noteq> [] \<and> (\<forall>x\<in>set c. \<forall>y\<in>set c. (x, y) \<in> reach succ))"
proof -
  have inv0: "tj_inv (set nodes) tarjan_init"
    by (simp add: tj_inv_def tarjan_init_def visited_def)
  have sem0: "tj_sem succ tarjan_init"
    by (simp add: tj_sem_def tarjan_init_def)
  have st0: "stack tarjan_init = []" by (simp add: tarjan_init_def)
  have c: "card (set nodes) \<le> length nodes" by (rule card_length)
  from tarjan_nodes_correct [OF inv0 sem0 st0 subset_refl _ closed c]
  obtain t' where t': "tarjan_nodes (length nodes) succ nodes tarjan_init = Some t'"
    "tj_inv (set nodes) t'" "tj_sem succ t'" "stack t' = []" "set nodes \<subseteq> visited t'"
    by auto
  from t'(2,4,5) have "set (concat (sccs t')) = set nodes" "distinct (concat (sccs t'))"
    by (auto simp: tj_inv_def)
  with t'(1,3) show ?thesis
    unfolding tj_sem_def TarjanSCC_def by simp
qed

section \<open>Correctness of the topological sort\<close>

text \<open>\<open>before l a b\<close>: the list \<open>l\<close> holds \<open>a\<close> at a smaller position than \<open>b\<close>.\<close>

definition before :: "'a list \<Rightarrow> 'a \<Rightarrow> 'a \<Rightarrow> bool" where
  "before l a b \<longleftrightarrow> (\<exists>i j. i < j \<and> j < length l \<and> l ! i = a \<and> l ! j = b)"

lemma before_trans:
  assumes "distinct l" and "before l a b" and "before l b c"
  shows "before l a c"
proof -
  from assms(2) obtain i j where 1: "i < j" "j < length l" "l ! i = a" "l ! j = b"
    unfolding before_def by blast
  from assms(3) obtain j' k where 2: "j' < k" "k < length l" "l ! j' = b" "l ! k = c"
    unfolding before_def by blast
  from 2 have j': "j' < length l" by simp
  from 1 2 have "l ! j = l ! j'" by simp
  with nth_eq_iff_index_eq [OF assms(1) 1(2) j'] have "j = j'" by simp
  with 1 2 show ?thesis unfolding before_def by (intro exI [of _ i] exI [of _ k]) simp
qed

lemma before_irrefl: "distinct l \<Longrightarrow> \<not> before l a a"
  unfolding before_def by (auto simp: nth_eq_iff_index_eq)

lemma before_rev: "before (rev l) a b \<longleftrightarrow> before l b a"
proof -
  have "before l b a" if "before (rev l) a b" for l :: "'a list" and a b
  proof -
    from that obtain i j where ij: "i < j" "j < length l" "rev l ! i = a" "rev l ! j = b"
      unfolding before_def by auto
    then have "l ! (length l - Suc j) = b" "l ! (length l - Suc i) = a"
      by (simp_all add: rev_nth)
    moreover from ij have "length l - Suc j < length l - Suc i" "length l - Suc i < length l"
      by simp_all
    ultimately show ?thesis unfolding before_def by blast
  qed
  from this [of l a b] this [of "rev l" b a] show ?thesis by auto
qed

lemma before_set: "before l a b \<Longrightarrow> a \<in> set l \<and> b \<in> set l"
  unfolding before_def by (auto simp: in_set_conv_nth intro: less_trans)

lemma singletons_concat:
  "\<forall>c\<in>set cs. length c = 1 \<Longrightarrow> cs = map (\<lambda>x. [x]) (concat cs)"
proof (induction cs)
  case Nil
  show ?case by simp
next
  case (Cons c cs)
  then obtain x where "c = [x]" by (cases c) auto
  with Cons show ?case by simp
qed

lemma sortedFrom_singletons: "sortedFrom (map (\<lambda>x. [x]) l) = (map Some (rev l), None)"
  by (simp add: sortedFrom_def Let_def comp_def rev_map)

lemma sortedFrom_error:
  assumes "c \<in> set cs" and "length c \<noteq> 1"
  shows "\<exists>ss comps. sortedFrom cs = (ss, Some (Unorderable comps))"
proof -
  from assms have "filter (\<lambda>s. length s \<noteq> 1) cs \<noteq> []"
    by (auto simp: filter_empty_conv)
  then show ?thesis by (simp add: sortedFrom_def Let_def)
qed

lemma edge_before:
  assumes d: "distinct l"
    and closed: "\<forall>i<length l. set (succ (l ! i)) \<subseteq> set (take (Suc i) l)"
    and irr: "\<forall>v\<in>set l. v \<notin> set (succ v)"
    and e: "(u, w) \<in> edges succ" and u: "u \<in> set l"
  shows "before l w u"
proof -
  from u obtain i where i: "i < length l" "l ! i = u" by (auto simp: in_set_conv_nth)
  from e have "w \<in> set (succ u)" by (simp add: edges_def)
  with closed i have "w \<in> set (take (Suc i) l)" by blast
  then obtain j where j: "j < Suc i" "j < length l" "l ! j = w"
    by (auto simp: in_set_conv_nth)
  from irr u \<open>w \<in> set (succ u)\<close> have "w \<noteq> u" by blast
  with i j have "j \<noteq> i" by auto
  with j have "j < i" by simp
  with i j show ?thesis unfolding before_def by blast
qed

lemma path_before:
  assumes d: "distinct l"
    and closed: "\<forall>i<length l. set (succ (l ! i)) \<subseteq> set (take (Suc i) l)"
    and irr: "\<forall>v\<in>set l. v \<notin> set (succ v)"
    and p: "(u, w) \<in> (edges succ)\<^sup>+" and u: "u \<in> set l"
  shows "before l w u"
  using p
proof (induction rule: trancl_induct)
  case (base y)
  from edge_before [OF d closed irr base u] show ?case .
next
  case (step y z)
  from step.IH have "y \<in> set l" by (simp add: before_set)
  from edge_before [OF d closed irr step.hyps(2) this] step.IH show ?case
    by (rule before_trans [OF d])
qed

lemma concat_singletons: "concat (map (\<lambda>x. [x]) xs) = xs"
  by (induction xs) simp_all

lemma closed_singletons:
  assumes "\<forall>i<length cs. \<forall>y\<in>set (cs ! i). set (succ y) \<subseteq> set (concat (take (Suc i) cs))"
    and "cs = map (\<lambda>x. [x]) l"
  shows "\<forall>i<length l. set (succ (l ! i)) \<subseteq> set (take (Suc i) l)"
proof (intro allI impI)
  fix i assume i: "i < length l"
  have "concat (take (Suc i) (map (\<lambda>x. [x]) l)) = take (Suc i) l"
    unfolding take_map by (rule concat_singletons)
  with assms i show "set (succ (l ! i)) \<subseteq> set (take (Suc i) l)"
    by (metis length_map list.set_intros(1) nth_map)
qed

lemma sort_acyclic:
  assumes closed: "\<forall>x\<in>set nodes. set (succ x) \<subseteq> set nodes"
    and acyc: "acyclic (edges succ)"
  shows "\<exists>l. map_option sortedFrom (TarjanSCC nodes succ) = Some (map Some l, None) \<and>
     distinct l \<and> set l = set nodes \<and>
     (\<forall>d m. (d, m) \<in> (edges succ)\<^sup>+ \<longrightarrow> d \<in> set nodes \<longrightarrow> before l d m)"
proof -
  from TarjanSCC_correct [OF closed] obtain cs where
    run: "TarjanSCC nodes succ = Some cs" and all: "set (concat cs) = set nodes"
    and d: "distinct (concat cs)"
    and cl: "\<forall>i<length cs. \<forall>y\<in>set (cs ! i). set (succ y) \<subseteq> set (concat (take (Suc i) cs))"
    and sc: "\<forall>c\<in>set cs. c \<noteq> [] \<and> (\<forall>x\<in>set c. \<forall>y\<in>set c. (x, y) \<in> reach succ)"
    by blast
  have single: "\<forall>c\<in>set cs. length c = 1"
  proof
    fix c assume c: "c \<in> set cs"
    show "length c = 1"
    proof (rule ccontr)
      assume n1: "length c \<noteq> 1"
      from sc c have "c \<noteq> []" by blast
      with n1 obtain x y r where cxy: "c = x # y # r"
        by (cases c; cases "tl c") auto
      from d c have "distinct c" by (auto simp: distinct_concat_iff)
      with cxy have xy: "x \<noteq> y" by auto
      from sc c cxy have "(x, y) \<in> reach succ" "(y, x) \<in> reach succ" by auto
      with xy have "(x, y) \<in> (edges succ)\<^sup>+" "(y, x) \<in> (edges succ)\<^sup>+"
        by (auto simp: rtrancl_eq_or_trancl)
      then have "(x, x) \<in> (edges succ)\<^sup>+" by (rule trancl_trans)
      with acyc show False by (simp add: acyclic_def)
    qed
  qed
  define l where "l = concat cs"
  from singletons_concat [OF single] have cs: "cs = map (\<lambda>x. [x]) l" by (simp add: l_def)
  from closed_singletons [OF cl cs]
  have cl': "\<forall>i<length l. set (succ (l ! i)) \<subseteq> set (take (Suc i) l)" .
  have irr: "\<forall>v\<in>set l. v \<notin> set (succ v)"
  proof
    fix v assume "v \<in> set l"
    show "v \<notin> set (succ v)"
    proof
      assume "v \<in> set (succ v)"
      then have "(v, v) \<in> (edges succ)\<^sup>+" by (auto simp: edges_def)
      with acyc show False by (simp add: acyclic_def)
    qed
  qed
  from d have dl: "distinct l" by (simp add: l_def)
  have "map_option sortedFrom (TarjanSCC nodes succ) = Some (map Some (rev l), None)"
    using run sortedFrom_singletons [of l] by (simp add: cs [symmetric])
  moreover have "\<forall>d m. (d, m) \<in> (edges succ)\<^sup>+ \<longrightarrow> d \<in> set nodes \<longrightarrow> before (rev l) d m"
  proof (intro allI impI)
    fix d m assume "(d, m) \<in> (edges succ)\<^sup>+" and "d \<in> set nodes"
    with all have "d \<in> set l" by (simp add: l_def)
    from path_before [OF dl cl' irr \<open>(d, m) \<in> (edges succ)\<^sup>+\<close> this]
    show "before (rev l) d m" by (simp add: before_rev)
  qed
  ultimately show ?thesis using dl all by (intro exI [of _ "rev l"]) (simp add: l_def)
qed

lemma sort_cyclic:
  assumes closed: "\<forall>x\<in>set nodes. set (succ x) \<subseteq> set nodes"
    and irr: "\<forall>v\<in>set nodes. v \<notin> set (succ v)"
    and x: "x \<in> set nodes" and xy: "(x, y) \<in> (edges succ)\<^sup>+"
    and yx: "(y, x) \<in> (edges succ)\<^sup>+"
  shows "\<exists>ss comps. map_option sortedFrom (TarjanSCC nodes succ)
     = Some (ss, Some (Unorderable comps))"
proof -
  from TarjanSCC_correct [OF closed] obtain cs where
    run: "TarjanSCC nodes succ = Some cs" and all: "set (concat cs) = set nodes"
    and d: "distinct (concat cs)"
    and cl: "\<forall>i<length cs. \<forall>y\<in>set (cs ! i). set (succ y) \<subseteq> set (concat (take (Suc i) cs))"
    by blast
  have "\<exists>c\<in>set cs. length c \<noteq> 1"
  proof (rule ccontr)
    assume "\<not> (\<exists>c\<in>set cs. length c \<noteq> 1)"
    then have single: "\<forall>c\<in>set cs. length c = 1" by blast
    define l where "l = concat cs"
    from singletons_concat [OF single] have cs: "cs = map (\<lambda>x. [x]) l" by (simp add: l_def)
    from closed_singletons [OF cl cs]
    have cl': "\<forall>i<length l. set (succ (l ! i)) \<subseteq> set (take (Suc i) l)" .
    from d have dl: "distinct l" by (simp add: l_def)
    from irr all have irr': "\<forall>v\<in>set l. v \<notin> set (succ v)" by (simp add: l_def)
    from x all have xl: "x \<in> set l" by (simp add: l_def)
    from path_before [OF dl cl' irr' xy xl] have yx': "before l y x" .
    then have "y \<in> set l" by (simp add: before_set)
    from path_before [OF dl cl' irr' yx this] have "before l x y" .
    from before_trans [OF dl this yx'] before_irrefl [OF dl] show False by blast
  qed
  then obtain c where "c \<in> set cs" "length c \<noteq> 1" by blast
  from sortedFrom_error [OF this] run show ?thesis by simp
qed

end
